theory Spec2Isabelle
  imports Main
begin

section \<open>Strings of the host language\<close>

text \<open>
  Snapshot texts are JavaScript strings. A \<^typ>\<open>char\<close> stands for one code unit of such
  a string, so \<^const>\<open>length\<close> is the \<open>length\<close> property. The model covers the code
  units below 256; the white-space code units in that range are listed in \<open>is_space\<close>.
\<close>

definition NL :: char where
  "NL = CHR 0x0A"

definition is_space :: "char \<Rightarrow> bool" where
  "is_space c = (c = CHR 0x09 \<or> c = CHR 0x0A \<or> c = CHR 0x0B \<or> c = CHR 0x0C
     \<or> c = CHR 0x0D \<or> c = CHR 0x20 \<or> c = CHR 0xA0)"

text \<open>\<open>s.trimEnd()\<close> and \<open>s.trim()\<close>.\<close>

definition trimEnd :: "string \<Rightarrow> string" where
  "trimEnd s = rev (dropWhile is_space (rev s))"

definition trim :: "string \<Rightarrow> string" where
  "trim s = dropWhile is_space (trimEnd s)"

text \<open>\<open>s.split('\n')\<close>: always at least one piece, one more than the number of newlines.\<close>

fun split_nl :: "string \<Rightarrow> string list" where
  "split_nl [] = [[]]"
| "split_nl (c # cs) =
     (if c = NL then [] # split_nl cs
      else (case split_nl cs of [] \<Rightarrow> [[c]] | l # ls \<Rightarrow> (c # l) # ls))"

text \<open>\<open>xs.join(sep)\<close>.\<close>

fun join :: "string \<Rightarrow> string list \<Rightarrow> string" where
  "join sep [] = []"
| "join sep [x] = x"
| "join sep (x # y # ys) = x @ sep @ join sep (y # ys)"

text \<open>
  The decimal digits of a natural number. The host prints a number so when it is below
  \<open>2^53\<close>, as every length and every index of a host string or array is.
\<close>

fun show_nat :: "nat \<Rightarrow> string" where
  "show_nat n =
     (if n < 10 then [''0123456789'' ! n]
      else show_nat (n div 10) @ [''0123456789'' ! (n mod 10)])"

declare show_nat.simps [simp del]

text \<open>
  A number inside a template literal. The numbers of the model are the integers; an integer
  stands for the host number of that value. Between \<open>-2^53\<close> and \<open>2^53\<close> the host prints
  the decimal digits, with a minus sign for a negative number. Outside it prints the
  shortest digits that identify the number, in exponent form from \<open>10^21\<close> on; that text
  is not computed here: \<open>large\<close> is the function that gives it, and every definition
  that prints a number the caller chooses takes it as its first argument.
\<close>

definition show_number :: "(int \<Rightarrow> string) \<Rightarrow> int \<Rightarrow> string" where
  "show_number large i =
     (if - 9007199254740992 < i \<and> i < 9007199254740992
      then (if i < 0 then CHR ''-'' # show_nat (nat (- i)) else show_nat (nat i))
      else large i)"

text \<open>
  The examples in this theory keep every number between \<open>-2^53\<close> and \<open>2^53\<close>, where
  \<open>large\<close> is not consulted; they pass this function for it.
\<close>

definition large_unused :: "int \<Rightarrow> string" where
  "large_unused i = []"

section \<open>The tab state\<close>

record span_range =
  startLine :: int
  endLine :: int

text \<open>
  The fields of class \<open>Tab\<close> that the snapshot engine and the modal queue use. A modal
  state is an object compared by identity; \<^typ>\<open>'m\<close> is the type of such identities.
\<close>

record 'm tab =
  modalStates :: "'m list"
  fullSnapshot :: string
  snapshotSpans :: "string list"
  currentSpanIndex :: int
  snapshotSpanSize :: int
  globalLines :: "string list"
  spanToGlobalLineMap :: "span_range list"

text \<open>The constructor: \<open>context.config.spanSize || 2000\<close>, every list empty.\<close>

definition new_tab :: "int option \<Rightarrow> 'm tab" where
  "new_tab spanSize =
     \<lparr> modalStates = [], fullSnapshot = [], snapshotSpans = [], currentSpanIndex = 0,
       snapshotSpanSize = (case spanSize of None \<Rightarrow> 2000 | Some n \<Rightarrow> if n = 0 then 2000 else n),
       globalLines = [], spanToGlobalLineMap = [] \<rparr>"

definition resetSnapshot :: "'m tab \<Rightarrow> 'm tab" where
  "resetSnapshot t =
     t\<lparr> fullSnapshot := [], snapshotSpans := [], currentSpanIndex := 0,
        globalLines := [], spanToGlobalLineMap := [] \<rparr>"

section \<open>Modal states\<close>

definition setModalState :: "'m tab \<Rightarrow> 'm \<Rightarrow> 'm tab" where
  "setModalState t modalState = t\<lparr> modalStates := modalStates t @ [modalState] \<rparr>"

definition clearModalState :: "'m tab \<Rightarrow> 'm \<Rightarrow> 'm tab" where
  "clearModalState t modalState =
     t\<lparr> modalStates := filter (\<lambda>state. state \<noteq> modalState) (modalStates t) \<rparr>"

text \<open>
  The synchronous entry of \<open>_raceAgainstModalStates\<close>: with a modal state present the
  call returns the first one at once; otherwise it goes on to race the action against the
  next modal event.
\<close>

datatype 'm race_entry = Returned 'm | Racing

definition raceAgainstModalStates :: "'m tab \<Rightarrow> 'm race_entry" where
  "raceAgainstModalStates t =
     (case modalStates t of [] \<Rightarrow> Racing | m # _ \<Rightarrow> Returned m)"

section \<open>Span navigation\<close>

record nav_result =
  success :: bool
  span :: string
  spanIndex :: int
  totalSpans :: int

definition navigateToSpan :: "'m tab \<Rightarrow> int \<Rightarrow> nav_result \<times> 'm tab" where
  "navigateToSpan t index =
     (if length (snapshotSpans t) = 0
      then (\<lparr> success = False, span = [], spanIndex = 0, totalSpans = 0 \<rparr>, t)
      else
        let clampedIndex = max 0 (min index (int (length (snapshotSpans t)) - 1))
        in (\<lparr> success = True, span = snapshotSpans t ! nat clampedIndex,
               spanIndex = clampedIndex, totalSpans = int (length (snapshotSpans t)) \<rparr>,
            t\<lparr> currentSpanIndex := clampedIndex \<rparr>))"

definition navigateToFirstSpan :: "'m tab \<Rightarrow> nav_result \<times> 'm tab" where
  "navigateToFirstSpan t = navigateToSpan t 0"

definition navigateToLastSpan :: "'m tab \<Rightarrow> nav_result \<times> 'm tab" where
  "navigateToLastSpan t = navigateToSpan t (int (length (snapshotSpans t)) - 1)"

definition navigateToNextSpan :: "'m tab \<Rightarrow> nav_result \<times> 'm tab" where
  "navigateToNextSpan t = navigateToSpan t (currentSpanIndex t + 1)"

definition navigateToPrevSpan :: "'m tab \<Rightarrow> nav_result \<times> 'm tab" where
  "navigateToPrevSpan t = navigateToSpan t (currentSpanIndex t - 1)"


section \<open>Splitting a snapshot into spans\<close>

text \<open>
  The text a line contributes to a span: the line and a newline, or, when that is longer
  than the span size, the first \<open>size - 50\<close> characters of the line and a marker that
  gives the original length (\<open>substring\<close> takes a negative bound as 0).
\<close>

definition lineToAdd :: "int \<Rightarrow> string \<Rightarrow> string" where
  "lineToAdd spanSize line =
     (if int (length (line @ [NL])) > spanSize
      then take (nat (spanSize - 50)) line
           @ ''... [line truncated, originally with '' @ show_nat (length line) @ '' chars]''
           @ [NL]
      else line @ [NL])"

text \<open>The variables of the loop of \<open>_splitSnapshotIntoSpans\<close>.\<close>

record split_acc =
  spans :: "string list"
  lineMap :: "span_range list"
  currentSpan :: string
  currentLength :: int
  spanStartLineIndex :: nat

text \<open>One iteration, for line \<open>i\<close> (0-based).\<close>

definition split_step :: "int \<Rightarrow> nat \<Rightarrow> string \<Rightarrow> split_acc \<Rightarrow> split_acc" where
  "split_step spanSize i line acc =
     (let l = lineToAdd spanSize line in
      if currentLength acc + int (length l) > spanSize \<and> length (currentSpan acc) > 0
      then acc\<lparr> spans := spans acc @ [trimEnd (currentSpan acc)],
                lineMap := lineMap acc
                  @ [\<lparr> startLine = int (spanStartLineIndex acc) + 1, endLine = int i \<rparr>],
                currentSpan := l,
                currentLength := int (length l),
                spanStartLineIndex := i \<rparr>
      else acc\<lparr> currentSpan := currentSpan acc @ l,
                currentLength := currentLength acc + int (length l) \<rparr>)"

fun split_loop :: "int \<Rightarrow> nat \<Rightarrow> string list \<Rightarrow> split_acc \<Rightarrow> split_acc" where
  "split_loop spanSize i [] acc = acc"
| "split_loop spanSize i (line # rest) acc = split_loop spanSize (Suc i) rest (split_step spanSize i line acc)"

text \<open>After the loop: the pending span is recorded only if it has content.\<close>

definition split_finish :: "nat \<Rightarrow> split_acc \<Rightarrow> split_acc" where
  "split_finish n acc =
     (if length (trim (currentSpan acc)) > 0
      then acc\<lparr> spans := spans acc @ [trimEnd (currentSpan acc)],
                lineMap := lineMap acc
                  @ [\<lparr> startLine = int (spanStartLineIndex acc) + 1, endLine = int n \<rparr>] \<rparr>
      else acc)"

definition split_init :: split_acc where
  "split_init =
     \<lparr> spans = [], lineMap = [], currentSpan = [], currentLength = 0, spanStartLineIndex = 0 \<rparr>"

definition split_run :: "int \<Rightarrow> string list \<Rightarrow> split_acc" where
  "split_run spanSize lines = split_finish (length lines) (split_loop spanSize 0 lines split_init)"

text \<open>
  \<open>_splitSnapshotIntoSpans\<close> returns the spans and stores the lines and the line ranges
  in the tab.
\<close>

definition splitSnapshotIntoSpans :: "'m tab \<Rightarrow> string \<Rightarrow> string list \<times> 'm tab" where
  "splitSnapshotIntoSpans t snapshot =
     (let lines = split_nl snapshot;
          t1 = t\<lparr> globalLines := lines \<rparr>
      in if snapshotSpanSize t = - 1
         then ([snapshot],
               t1\<lparr> spanToGlobalLineMap := [\<lparr> startLine = 1, endLine = int (length lines) \<rparr>] \<rparr>)
         else
           let acc = split_run (snapshotSpanSize t) lines
           in (if length (spans acc) > 0 then spans acc else [[]],
               t1\<lparr> spanToGlobalLineMap := lineMap acc \<rparr>))"

definition setSnapshotSpanSize :: "'m tab \<Rightarrow> int \<Rightarrow> 'm tab" where
  "setSnapshotSpanSize t spanSize =
     (let t1 = t\<lparr> snapshotSpanSize := (if spanSize = - 1 then - 1 else max 100 spanSize) \<rparr>
      in if fullSnapshot t1 \<noteq> []
         then
           let r = splitSnapshotIntoSpans t1 (fullSnapshot t1);
               t2 = (snd r)\<lparr> snapshotSpans := fst r \<rparr>
           in t2\<lparr> currentSpanIndex :=
                    min (currentSpanIndex t2) (int (length (snapshotSpans t2)) - 1) \<rparr>
         else t1)"

section \<open>Capturing a snapshot\<close>

text \<open>
  The loop that decides whether only the span under the cursor changed: it stops with
  \<open>False\<close> at the first other index where the new and the old span differ.
\<close>

fun onlyCurrentSpanChanged :: "string list \<Rightarrow> string list \<Rightarrow> int \<Rightarrow> nat list \<Rightarrow> bool" where
  "onlyCurrentSpanChanged new old previousCurrentSpanIndex [] = True"
| "onlyCurrentSpanChanged new old previousCurrentSpanIndex (i # rest) =
     (if int i \<noteq> previousCurrentSpanIndex \<and> new ! i \<noteq> old ! i then False
      else onlyCurrentSpanChanged new old previousCurrentSpanIndex rest)"

text \<open>
  The action that \<open>captureSnapshot\<close> races against the modal states, from the point
  where the page has returned the text \<open>snapshot\<close>: the block that updates the spans and
  reconciles the cursor. The markdown that the method returns is not modelled.
\<close>

definition captureSnapshot_action :: "'m tab \<Rightarrow> string \<Rightarrow> 'm tab" where
  "captureSnapshot_action t snapshot =
     (if fullSnapshot t \<noteq> snapshot
      then
        let previousSpans = snapshotSpans t;
            previousCurrentSpanIndex = currentSpanIndex t;
            r = splitSnapshotIntoSpans (t\<lparr> fullSnapshot := snapshot \<rparr>) snapshot;
            t1 = (snd r)\<lparr> snapshotSpans := fst r \<rparr>;
            t2 =
              (if length previousSpans = 0 then t1\<lparr> currentSpanIndex := 0 \<rparr>
               else if length (snapshotSpans t1) = length previousSpans
                       \<and> previousCurrentSpanIndex < int (length (snapshotSpans t1))
               then
                 (if onlyCurrentSpanChanged (snapshotSpans t1) previousSpans
                       previousCurrentSpanIndex [0 ..< length (snapshotSpans t1)]
                  then t1\<lparr> currentSpanIndex := previousCurrentSpanIndex \<rparr>
                  else t1\<lparr> currentSpanIndex := 0 \<rparr>)
               else t1\<lparr> currentSpanIndex := 0 \<rparr>)
        in t2\<lparr> currentSpanIndex :=
                 min (currentSpanIndex t2) (int (length (snapshotSpans t2)) - 1) \<rparr>
      else t)"

text \<open>\<open>captureSnapshot\<close> itself: with a modal state present nothing is captured.\<close>

definition captureSnapshot :: "'m tab \<Rightarrow> string \<Rightarrow> 'm tab" where
  "captureSnapshot t snapshot =
     (if length (modalStates t) \<noteq> 0 then t else captureSnapshot_action t snapshot)"

section \<open>Searching\<close>

text \<open>
  A compiled regular expression of the host language, as far as \<open>test\<close> uses it:
  \<open>matchFrom r s i\<close> is the end of the match that the expression finds in \<open>s\<close> when it
  starts at index \<open>i\<close> (without the flag \<open>y\<close>, the leftmost match that starts at \<open>i\<close>
  or later), and \<open>global\<close> says whether the flags make \<open>test\<close> start at the object's
  \<open>lastIndex\<close> and update it (\<open>g\<close> or \<open>y\<close>).
\<close>

record regexp =
  global :: bool
  matchFrom :: "string \<Rightarrow> nat \<Rightarrow> nat option"

text \<open>
  \<open>regex.test(s)\<close> with the object's \<open>lastIndex\<close> before and after. A global expression
  starts at \<open>lastIndex\<close> and leaves the end of the match there, or 0 after a failure; any
  other starts at 0 and leaves \<open>lastIndex\<close> alone.
\<close>

definition regexp_test :: "regexp \<Rightarrow> nat \<Rightarrow> string \<Rightarrow> bool \<times> nat" where
  "regexp_test r lastIndex s =
     (if global r
      then (if lastIndex > length s then (False, 0)
            else (case matchFrom r s lastIndex of
                    None \<Rightarrow> (False, 0)
                  | Some e \<Rightarrow> (True, e)))
      else (matchFrom r s 0 \<noteq> None, lastIndex))"

text \<open>The pattern matches the line somewhere.\<close>

definition pattern_matches :: "regexp \<Rightarrow> string \<Rightarrow> bool" where
  "pattern_matches r s = (matchFrom r s 0 \<noteq> None)"

text \<open>A pattern of ordinary characters, compiled with or without the flag \<open>g\<close>.\<close>

fun find_literal :: "string \<Rightarrow> string \<Rightarrow> nat \<Rightarrow> nat option" where
  "find_literal p [] pos = (if p = [] then Some pos else None)"
| "find_literal p (c # cs) pos =
     (if take (length p) (c # cs) = p then Some (pos + length p)
      else find_literal p cs (Suc pos))"

definition literal_regexp :: "string \<Rightarrow> bool \<Rightarrow> regexp" where
  "literal_regexp p g =
     \<lparr> global = g,
       matchFrom = (\<lambda>s i. if i \<le> length s then find_literal p (drop i s) i else None) \<rparr>"

record search_match =
  matchSpanIndex :: int
  line :: string
  inSpanLineNumber :: int
  globalLineNumber :: int

record search_result =
  spanIndices :: "int list"
  matches :: "search_match list"

text \<open>
  The global number of line \<open>lineIndex\<close> (0-based) of a span: counted from the span's
  first line if the span has a recorded range, and the line's number in the span otherwise.
\<close>

definition globalLineOf :: "span_range option \<Rightarrow> nat \<Rightarrow> int" where
  "globalLineOf spanLineRange lineIndex =
     (case spanLineRange of
        Some rg \<Rightarrow> startLine rg + int lineIndex
      | None \<Rightarrow> int lineIndex + 1)"

text \<open>
  The inner \<open>forEach\<close> over the lines of one span. The state is the expression's
  \<open>lastIndex\<close>, the flag \<open>hasMatch\<close> and the matches so far.
\<close>

fun search_lines ::
  "regexp \<Rightarrow> span_range option \<Rightarrow> nat \<Rightarrow> nat \<Rightarrow> string list
     \<Rightarrow> nat \<times> bool \<times> search_match list \<Rightarrow> nat \<times> bool \<times> search_match list" where
  "search_lines r spanLineRange spanIdx lineIndex [] st = st"
| "search_lines r spanLineRange spanIdx lineIndex (l # ls) (lastIndex, hasMatch, ms) =
     (let res = regexp_test r lastIndex l
      in if fst res
         then search_lines r spanLineRange spanIdx (Suc lineIndex) ls
                (snd res, True,
                 ms @ [\<lparr> matchSpanIndex = int spanIdx, line = trim l,
                          inSpanLineNumber = int lineIndex + 1,
                          globalLineNumber = globalLineOf spanLineRange lineIndex \<rparr>])
         else search_lines r spanLineRange spanIdx (Suc lineIndex) ls (snd res, hasMatch, ms))"

text \<open>Reading an array at an index that may be past its end.\<close>

definition nth_opt :: "'a list \<Rightarrow> nat \<Rightarrow> 'a option" where
  "nth_opt xs i = (if i < length xs then Some (xs ! i) else None)"

text \<open>The outer \<open>forEach\<close> over the spans.\<close>

fun search_spans ::
  "regexp \<Rightarrow> span_range list \<Rightarrow> nat \<Rightarrow> string list
     \<Rightarrow> nat \<times> int list \<times> search_match list \<Rightarrow> nat \<times> int list \<times> search_match list" where
  "search_spans r lmap spanIdx [] st = st"
| "search_spans r lmap spanIdx (sp # rest) (lastIndex, idxs, ms) =
     (let res = search_lines r (nth_opt lmap spanIdx) spanIdx 0 (split_nl sp)
                  (lastIndex, False, ms)
      in search_spans r lmap (Suc spanIdx) rest
           (fst res,
            if fst (snd res) then idxs @ [int spanIdx] else idxs,
            snd (snd res)))"

text \<open>\<open>searchInSnapshot\<close> for a pattern that compiled to \<open>r\<close>; a fresh object, so \<open>lastIndex\<close> is 0.\<close>

definition searchInSnapshot :: "'m tab \<Rightarrow> regexp \<Rightarrow> search_result" where
  "searchInSnapshot t r =
     (let res = search_spans r (spanToGlobalLineMap t) 0 (snapshotSpans t) (0, [], [])
      in \<lparr> spanIndices = fst (snd res), matches = snd (snd res) \<rparr>)"

section \<open>Navigating to a line\<close>

record line_result =
  lineSuccess :: bool
  content :: string
  lineInfo :: string

text \<open>The context range (0-based, inclusive) around the target line.\<close>

definition contextStart :: "int \<Rightarrow> int \<Rightarrow> int" where
  "contextStart targetLineIndex contextLines = max 0 (targetLineIndex - contextLines)"

definition contextEnd :: "'m tab \<Rightarrow> int \<Rightarrow> int \<Rightarrow> int" where
  "contextEnd t targetLineIndex contextLines =
     min (int (length (globalLines t)) - 1) (targetLineIndex + contextLines)"

text \<open>The indices of the spans whose line range overlaps the context range.\<close>

definition involvedSpans :: "'m tab \<Rightarrow> int \<Rightarrow> int \<Rightarrow> nat list" where
  "involvedSpans t targetLineIndex contextLines =
     filter (\<lambda>spanIdx.
         startLine (spanToGlobalLineMap t ! spanIdx) - 1 \<le> contextEnd t targetLineIndex contextLines
         \<and> endLine (spanToGlobalLineMap t ! spanIdx) - 1 \<ge> contextStart targetLineIndex contextLines)
       [0 ..< length (spanToGlobalLineMap t)]"

text \<open>One rendered line of the block.\<close>

definition contextLine :: "(int \<Rightarrow> string) \<Rightarrow> 'm tab \<Rightarrow> int \<Rightarrow> int \<Rightarrow> string" where
  "contextLine large t targetLineIndex i =
     (if i = targetLineIndex then ''>>> '' else ''    '')
     @ show_number large (i + 1) @ '': '' @ globalLines t ! nat i"

definition contextContent :: "(int \<Rightarrow> string) \<Rightarrow> 'm tab \<Rightarrow> int \<Rightarrow> int \<Rightarrow> string list" where
  "contextContent large t targetLineIndex contextLines =
     map (contextLine large t targetLineIndex)
       [contextStart targetLineIndex contextLines .. contextEnd t targetLineIndex contextLines]"

definition spanInfo :: "nat list \<Rightarrow> string" where
  "spanInfo involved =
     (if length involved > 0
      then ''Lines from spans: '' @ join '', '' (map (\<lambda>s. show_nat (s + 1)) involved)
      else ''Span information unavailable'')"

text \<open>
  \<open>navigateToLine\<close>; a caller that gives no \<open>contextLines\<close> gets 3. The method assigns
  no field of the tab, so the tab comes back as it went in.
\<close>

definition navigateToLine :: "(int \<Rightarrow> string) \<Rightarrow> 'm tab \<Rightarrow> int \<Rightarrow> int \<Rightarrow> line_result \<times> 'm tab" where
  "navigateToLine large t globalLineNo contextLines =
     (if length (globalLines t) = 0
      then (\<lparr> lineSuccess = False, content = [],
              lineInfo = ''No snapshot available. Take a snapshot first.'' \<rparr>, t)
      else
        let targetLineIndex = globalLineNo - 1
        in if targetLineIndex < 0 \<or> targetLineIndex \<ge> int (length (globalLines t))
           then (\<lparr> lineSuccess = False, content = [],
                   lineInfo = ''Line '' @ show_number large globalLineNo
                     @ '' is out of range. Snapshot has ''
                     @ show_nat (length (globalLines t)) @ '' lines.'' \<rparr>, t)
           else
             (\<lparr> lineSuccess = True,
                content = join [NL] (contextContent large t targetLineIndex contextLines),
                lineInfo = ''Showing lines ''
                  @ show_number large (contextStart targetLineIndex contextLines + 1) @ ''-''
                  @ show_number large (contextEnd t targetLineIndex contextLines + 1)
                  @ '' ('' @ [CHR 0xC2, CHR 0xB1] @ show_number large contextLines
                  @ '' context around line '' @ show_number large globalLineNo @ '')'' @ [NL]
                  @ spanInfo (involvedSpans t targetLineIndex contextLines) \<rparr>, t))"


section \<open>Reachable states\<close>

text \<open>
  The states a tab can be in: the constructor's state, and every state that one of the
  operations above leaves behind. The action of \<open>captureSnapshot\<close> is listed by itself,
  since it runs to its end even when a modal state arrives while the page is computing
  the snapshot.
\<close>

inductive reachable :: "'m tab \<Rightarrow> bool" where
  init: "reachable (new_tab spanSize)"
| reset: "reachable t \<Longrightarrow> reachable (resetSnapshot t)"
| capture: "reachable t \<Longrightarrow> reachable (captureSnapshot_action t snapshot)"
| resize: "reachable t \<Longrightarrow> reachable (setSnapshotSpanSize t spanSize)"
| to_span: "reachable t \<Longrightarrow> reachable (snd (navigateToSpan t index))"
| set_modal: "reachable t \<Longrightarrow> reachable (setModalState t modalState)"
| clear_modal: "reachable t \<Longrightarrow> reachable (clearModalState t modalState)"

section \<open>Notions used in the properties\<close>

text \<open>Line ranges that follow one another without a gap, the first one starting at line \<open>a\<close>.\<close>

fun contiguous :: "int \<Rightarrow> span_range list \<Rightarrow> bool" where
  "contiguous a [] = True"
| "contiguous a (rg # rest) =
     (startLine rg = a \<and> startLine rg \<le> endLine rg \<and> contiguous (endLine rg + 1) rest)"

text \<open>The last line that a list of ranges covers, 0 for no range.\<close>

definition covered :: "span_range list \<Rightarrow> int" where
  "covered rs = (if rs = [] then 0 else endLine (last rs))"

text \<open>The lines of a range (1-based, inclusive), and the text of the span made from lines.\<close>

definition lines_of :: "span_range \<Rightarrow> string list \<Rightarrow> string list" where
  "lines_of rg ls = take (nat (endLine rg - startLine rg + 1)) (drop (nat (startLine rg - 1)) ls)"

definition span_text :: "int \<Rightarrow> string list \<Rightarrow> string" where
  "span_text spanSize ls = trimEnd (concat (map (lineToAdd spanSize) ls))"

text \<open>
  The invariant of the splitting loop after the lines \<open>seen\<close>: the pending span is made of
  the lines from \<open>spanStartLineIndex\<close> on, the recorded ranges are contiguous from line 1
  up to that index, and each recorded span is the text of the lines of its range.
\<close>

definition split_inv :: "int \<Rightarrow> string list \<Rightarrow> split_acc \<Rightarrow> bool" where
  "split_inv spanSize seen acc \<longleftrightarrow>
     currentLength acc = int (length (currentSpan acc))
     \<and> spanStartLineIndex acc \<le> length seen
     \<and> currentSpan acc = concat (map (lineToAdd spanSize) (drop (spanStartLineIndex acc) seen))
     \<and> contiguous 1 (lineMap acc)
     \<and> covered (lineMap acc) = int (spanStartLineIndex acc)
     \<and> spans acc = map (\<lambda>rg. span_text spanSize (lines_of rg seen)) (lineMap acc)"

text \<open>
  A length \<open>n\<close> is within the span size, or within the size that a truncated line of the
  text takes: \<open>spanSize - 50\<close> characters, the 45 characters of the marker and the digits
  of the original length.
\<close>

definition len_ok :: "int \<Rightarrow> string list \<Rightarrow> nat \<Rightarrow> bool" where
  "len_ok spanSize ls n \<longleftrightarrow>
     int n \<le> spanSize
     \<or> (\<exists>l \<in> set ls. spanSize \<le> int (length l)
                       \<and> int n + 5 \<le> spanSize + int (length (show_nat (length l))))"

definition len_inv :: "int \<Rightarrow> string list \<Rightarrow> split_acc \<Rightarrow> bool" where
  "len_inv spanSize seen acc \<longleftrightarrow>
     currentLength acc = int (length (currentSpan acc))
     \<and> (\<forall>s \<in> set (spans acc). len_ok spanSize seen (Suc (length s)))
     \<and> (currentSpan acc = []
          \<or> last (currentSpan acc) = NL \<and> len_ok spanSize seen (length (currentSpan acc)))"

text \<open>
  Every line of every span of the tab has a global line number that is a line of the
  snapshot.
\<close>

definition spans_fit :: "'m tab \<Rightarrow> bool" where
  "spans_fit t \<longleftrightarrow>
     (\<forall>k < length (snapshotSpans t). \<forall>j < length (split_nl (snapshotSpans t ! k)).
        1 \<le> globalLineOf (nth_opt (spanToGlobalLineMap t) k) j
        \<and> globalLineOf (nth_opt (spanToGlobalLineMap t) k) j \<le> int (length (globalLines t)))"

text \<open>
  The text of a line as a span shows it: the line itself when the whole snapshot is one
  span, and otherwise what the line contributes to a span, without the newline.
\<close>

definition line_text :: "int \<Rightarrow> string \<Rightarrow> string" where
  "line_text spanSize l = (if spanSize = - 1 then l else butlast (lineToAdd spanSize l))"

text \<open>
  Every line of every span of the tab is, up to white space at its ends, the text that
  the span size \<open>spanSize\<close> shows for the line of the snapshot with its global number.
\<close>

definition spans_show :: "int \<Rightarrow> 'm tab \<Rightarrow> bool" where
  "spans_show spanSize t \<longleftrightarrow>
     (\<forall>k < length (snapshotSpans t). \<forall>j < length (split_nl (snapshotSpans t ! k)).
        trim (split_nl (snapshotSpans t ! k) ! j)
          = trim (line_text spanSize
              (globalLines t ! nat (globalLineOf (nth_opt (spanToGlobalLineMap t) k) j - 1))))"

text \<open>
  A range holds a single line, or the lines of the range together are within the span
  size; the invariant of the loop for this.
\<close>

definition fill_ok :: "int \<Rightarrow> string list \<Rightarrow> span_range \<Rightarrow> bool" where
  "fill_ok spanSize ls rg \<longleftrightarrow>
     startLine rg = endLine rg
     \<or> int (length (concat (map (lineToAdd spanSize) (lines_of rg ls)))) \<le> spanSize"

definition fill_inv :: "int \<Rightarrow> string list \<Rightarrow> split_acc \<Rightarrow> bool" where
  "fill_inv spanSize seen acc \<longleftrightarrow>
     (\<forall>rg \<in> set (lineMap acc). fill_ok spanSize seen rg)
     \<and> (length seen \<le> Suc (spanStartLineIndex acc)
          \<or> int (length (currentSpan acc)) \<le> spanSize)"

section \<open>What the split leaves alone\<close>

lemma splitSnapshotIntoSpans_frame [simp]:
  "currentSpanIndex (snd (splitSnapshotIntoSpans t s)) = currentSpanIndex t"
  "modalStates (snd (splitSnapshotIntoSpans t s)) = modalStates t"
  "fullSnapshot (snd (splitSnapshotIntoSpans t s)) = fullSnapshot t"
  "snapshotSpans (snd (splitSnapshotIntoSpans t s)) = snapshotSpans t"
  "snapshotSpanSize (snd (splitSnapshotIntoSpans t s)) = snapshotSpanSize t"
  "globalLines (snd (splitSnapshotIntoSpans t s)) = split_nl s"
  by (simp_all add: splitSnapshotIntoSpans_def Let_def)

section \<open>Properties of the modal queue\<close>

text \<open>
  C9. The modal queue is oldest first and never reordered: \<open>setModalState\<close> appends the
  new entry at the end; \<open>clearModalState\<close> removes the given entry and nothing else, the
  other entries keeping their order; no other operation changes the queue; with a
  non-empty queue the race returns the head.
\<close>

theorem modal_queue_order:
  "modalStates (setModalState t m) = modalStates t @ [m]
   \<and> modalStates (clearModalState t m) = filter (\<lambda>x. x \<noteq> m) (modalStates t)
   \<and> m \<notin> set (modalStates (clearModalState t m))
   \<and> filter (\<lambda>x. x \<noteq> m) (modalStates (clearModalState t m)) = filter (\<lambda>x. x \<noteq> m) (modalStates t)
   \<and> modalStates (resetSnapshot t) = modalStates t
   \<and> modalStates (captureSnapshot t snapshot) = modalStates t
   \<and> modalStates (captureSnapshot_action t snapshot) = modalStates t
   \<and> modalStates (setSnapshotSpanSize t n) = modalStates t
   \<and> modalStates (snd (navigateToSpan t i)) = modalStates t
   \<and> modalStates (snd (navigateToLine large t g c)) = modalStates t
   \<and> (modalStates t \<noteq> [] \<longrightarrow> raceAgainstModalStates t = Returned (hd (modalStates t)))"
  by (auto simp: setModalState_def clearModalState_def raceAgainstModalStates_def
        resetSnapshot_def captureSnapshot_def captureSnapshot_action_def setSnapshotSpanSize_def
        navigateToSpan_def navigateToLine_def Let_def
      split: list.splits)

theorem modal_queue_order_witness:
  "modalStates (setModalState ((new_tab None)\<lparr>modalStates := [1, 2, 3 :: nat]\<rparr>) 4) = [1, 2, 3, 4]
   \<and> modalStates (clearModalState ((new_tab None)\<lparr>modalStates := [1, 2, 3 :: nat]\<rparr>) 2) = [1, 3]
   \<and> raceAgainstModalStates ((new_tab None)\<lparr>modalStates := [1, 2, 3 :: nat]\<rparr>) = Returned 1"
  using modal_queue_order [of "(new_tab None)\<lparr>modalStates := [1, 2, 3 :: nat]\<rparr>" 4]
        modal_queue_order [of "(new_tab None)\<lparr>modalStates := [1, 2, 3 :: nat]\<rparr>" 2]
  by (simp add: new_tab_def)

section \<open>Properties of span navigation\<close>

text \<open>
  C7. Every span-navigation operation clamps the requested index into
  \<open>[0, spanCount - 1]\<close> and returns success, span, spanIndex and totalSpans; success is
  false only with zero spans. \<open>navigateToSpan (-5)\<close> lands on span 0, and next at the last
  span and prev at the first span return the boundary span with success and leave the
  state as it was.
\<close>

theorem span_navigation_clamps:
  "(snapshotSpans t = [] \<longrightarrow>
      navigateToSpan t i = (\<lparr> success = False, span = [], spanIndex = 0, totalSpans = 0 \<rparr>, t))
   \<and> (snapshotSpans t \<noteq> [] \<longrightarrow>
      success (fst (navigateToSpan t i))
      \<and> spanIndex (fst (navigateToSpan t i)) = max 0 (min i (int (length (snapshotSpans t)) - 1))
      \<and> 0 \<le> spanIndex (fst (navigateToSpan t i))
      \<and> spanIndex (fst (navigateToSpan t i)) < int (length (snapshotSpans t))
      \<and> span (fst (navigateToSpan t i)) = snapshotSpans t ! nat (spanIndex (fst (navigateToSpan t i)))
      \<and> totalSpans (fst (navigateToSpan t i)) = int (length (snapshotSpans t))
      \<and> snd (navigateToSpan t i) = t\<lparr> currentSpanIndex := spanIndex (fst (navigateToSpan t i)) \<rparr>
      \<and> spanIndex (fst (navigateToSpan t (- 5))) = 0)
   \<and> navigateToFirstSpan t = navigateToSpan t 0
   \<and> navigateToLastSpan t = navigateToSpan t (int (length (snapshotSpans t)) - 1)
   \<and> navigateToNextSpan t = navigateToSpan t (currentSpanIndex t + 1)
   \<and> navigateToPrevSpan t = navigateToSpan t (currentSpanIndex t - 1)
   \<and> (snapshotSpans t \<noteq> [] \<and> currentSpanIndex t = int (length (snapshotSpans t)) - 1 \<longrightarrow>
        navigateToNextSpan t =
          (\<lparr> success = True, span = last (snapshotSpans t),
             spanIndex = int (length (snapshotSpans t)) - 1,
             totalSpans = int (length (snapshotSpans t)) \<rparr>, t))
   \<and> (snapshotSpans t \<noteq> [] \<and> currentSpanIndex t = 0 \<longrightarrow>
        navigateToPrevSpan t =
          (\<lparr> success = True, span = hd (snapshotSpans t), spanIndex = 0,
             totalSpans = int (length (snapshotSpans t)) \<rparr>, t))"
  by (cases "snapshotSpans t")
     (auto simp: navigateToSpan_def navigateToFirstSpan_def navigateToLastSpan_def
        navigateToNextSpan_def navigateToPrevSpan_def Let_def last_conv_nth nat_diff_distrib hd_conv_nth)

theorem span_navigation_clamps_witness:
  "success (fst (navigateToSpan ((new_tab None :: nat tab)\<lparr>snapshotSpans := [''a'', ''b'', ''c''], currentSpanIndex := 2\<rparr>) 7))
   \<and> spanIndex (fst (navigateToSpan ((new_tab None :: nat tab)\<lparr>snapshotSpans := [''a'', ''b'', ''c''], currentSpanIndex := 2\<rparr>) 7)) = 2
   \<and> span (fst (navigateToSpan ((new_tab None :: nat tab)\<lparr>snapshotSpans := [''a'', ''b'', ''c''], currentSpanIndex := 2\<rparr>) 7)) = ''c''
   \<and> spanIndex (fst (navigateToSpan ((new_tab None :: nat tab)\<lparr>snapshotSpans := [''a'', ''b'', ''c''], currentSpanIndex := 2\<rparr>) (- 5))) = 0
   \<and> navigateToNextSpan ((new_tab None :: nat tab)\<lparr>snapshotSpans := [''a'', ''b'', ''c''], currentSpanIndex := 2\<rparr>)
     = (\<lparr> success = True, span = ''c'', spanIndex = 2, totalSpans = 3 \<rparr>,
        ((new_tab None :: nat tab)\<lparr>snapshotSpans := [''a'', ''b'', ''c''], currentSpanIndex := 2\<rparr>))
   \<and> navigateToSpan (new_tab None :: nat tab) 1
     = (\<lparr> success = False, span = [], spanIndex = 0, totalSpans = 0 \<rparr>, new_tab None)"
  using span_navigation_clamps [of "((new_tab None :: nat tab)\<lparr>snapshotSpans := [''a'', ''b'', ''c''], currentSpanIndex := 2\<rparr>)" 7]
        span_navigation_clamps [of "new_tab None :: nat tab" 1]
  by (simp add: new_tab_def navigateToSpan_def)

section \<open>Properties of line navigation\<close>

lemma map_upto_shift: "map f [a .. b] = map (\<lambda>k. f (k - 1)) [a + 1 .. b + 1]"
proof (induction a b rule: upto.induct)
  case (1 i j)
  show ?case
  proof (cases "i \<le> j")
    case True
    then show ?thesis using 1 by (simp add: upto_rec1 [of i j] upto_rec1 [of "i + 1" "j + 1"])
  next
    case False
    then show ?thesis by simp
  qed
qed

lemma navigateToLine_success:
  "lineSuccess (fst (navigateToLine large t g c))
     \<longleftrightarrow> globalLines t \<noteq> [] \<and> 1 \<le> g \<and> g \<le> int (length (globalLines t))"
  by (simp add: navigateToLine_def Let_def)

lemma navigateToLine_window:
  "contextStart (g - 1) c + 1 = max 1 (g - c)"
  "contextEnd t (g - 1) c + 1 = min (int (length (globalLines t))) (g + c)"
  by (simp_all add: contextStart_def contextEnd_def)

lemma contextContent_lines:
  "contextContent large t (g - 1) c
     = map (\<lambda>k. (if k = g then ''>>> '' else ''    '') @ show_number large k @ '': ''
                   @ globalLines t ! nat (k - 1))
         [max 1 (g - c) .. min (int (length (globalLines t))) (g + c)]"
  unfolding contextContent_def
  by (subst map_upto_shift) (simp add: navigateToLine_window contextLine_def)

lemma navigateToLine_content:
  "lineSuccess (fst (navigateToLine large t g c)) \<Longrightarrow>
     content (fst (navigateToLine large t g c))
       = join [NL]
           (map (\<lambda>k. (if k = g then ''>>> '' else ''    '') @ show_number large k @ '': ''
                        @ globalLines t ! nat (k - 1))
              [max 1 (g - c) .. min (int (length (globalLines t))) (g + c)])"
  by (simp add: navigateToLine_def Let_def contextContent_lines split: if_splits)

lemma navigateToLine_same_tab: "snd (navigateToLine large t g c) = t"
  by (simp add: navigateToLine_def Let_def)

text \<open>
  C6. \<open>navigateToLine\<close> fails exactly when there are no lines yet or the line number is
  outside \<open>[1, lineCount]\<close>, with a message of its own for each of the two cases,
  different whatever the line number and however the host prints it; lines 0 and
  \<open>lineCount + 1\<close> fail. The messages print a number as the host does: in decimal
  between \<open>-2^53\<close> and \<open>2^53\<close>. It never changes the tab. On success the block shows
  the lines \<open>max 1 (g - c)\<close> to \<open>min lineCount (g + c)\<close>, each with its number, and the
  marker is on line \<open>g\<close> and on no other; for \<open>c \<ge> 0\<close>, the range of \<open>contextLines\<close>,
  line \<open>g\<close> is in the block.
\<close>

theorem navigateToLine_range:
  "(lineSuccess (fst (navigateToLine large t g c))
      \<longleftrightarrow> globalLines t \<noteq> [] \<and> 1 \<le> g \<and> g \<le> int (length (globalLines t)))
   \<and> (globalLines t = [] \<longrightarrow>
        lineInfo (fst (navigateToLine large t g c)) = ''No snapshot available. Take a snapshot first.'')
   \<and> (globalLines t \<noteq> [] \<and> (g < 1 \<or> int (length (globalLines t)) < g) \<longrightarrow>
        lineInfo (fst (navigateToLine large t g c))
          = ''Line '' @ show_number large g @ '' is out of range. Snapshot has ''
            @ show_nat (length (globalLines t)) @ '' lines.'')
   \<and> ''No snapshot available. Take a snapshot first.''
        \<noteq> ''Line '' @ show_number large g @ '' is out of range. Snapshot has ''
            @ show_nat (length (globalLines t)) @ '' lines.''
   \<and> (- 9007199254740992 < g \<and> g < 9007199254740992 \<longrightarrow>
        show_number large g = (if g < 0 then CHR ''-'' # show_nat (nat (- g)) else show_nat (nat g)))
   \<and> \<not> lineSuccess (fst (navigateToLine large t 0 c))
   \<and> \<not> lineSuccess (fst (navigateToLine large t (int (length (globalLines t)) + 1) c))
   \<and> (\<not> lineSuccess (fst (navigateToLine large t g c)) \<longrightarrow> content (fst (navigateToLine large t g c)) = [])
   \<and> snd (navigateToLine large t g c) = t
   \<and> (lineSuccess (fst (navigateToLine large t g c)) \<longrightarrow>
        contextStart (g - 1) c + 1 = max 1 (g - c)
        \<and> contextEnd t (g - 1) c + 1 = min (int (length (globalLines t))) (g + c)
        \<and> content (fst (navigateToLine large t g c))
            = join [NL]
                (map (\<lambda>k. (if k = g then ''>>> '' else ''    '') @ show_number large k @ '': ''
                           @ globalLines t ! nat (k - 1))
                  [max 1 (g - c) .. min (int (length (globalLines t))) (g + c)])
        \<and> (0 \<le> c \<longrightarrow> g \<in> set [max 1 (g - c) .. min (int (length (globalLines t))) (g + c)])
        \<and> take (length (''Showing lines '' @ show_number large (max 1 (g - c)) @ ''-''
                   @ show_number large (min (int (length (globalLines t))) (g + c))))
             (lineInfo (fst (navigateToLine large t g c)))
            = ''Showing lines '' @ show_number large (max 1 (g - c)) @ ''-''
                   @ show_number large (min (int (length (globalLines t))) (g + c)))"
proof -
  have s: "contextStart (g - 1) c + 1 = max 1 (g - c)"
    by (simp add: contextStart_def)
  have e: "contextEnd t (g - 1) c + 1 = min (int (length (globalLines t))) (g + c)"
    by (simp add: contextEnd_def)
  have m: "contextContent large t (g - 1) c
      = map (\<lambda>k. (if k = g then ''>>> '' else ''    '') @ show_number large k @ '': ''
                           @ globalLines t ! nat (k - 1))
                  [max 1 (g - c) .. min (int (length (globalLines t))) (g + c)]"
    unfolding contextContent_def
    by (subst map_upto_shift) (simp add: s e contextLine_def)
  have d: "- 9007199254740992 < g \<and> g < 9007199254740992 \<longrightarrow>
        show_number large g = (if g < 0 then CHR ''-'' # show_nat (nat (- g)) else show_nat (nat g))"
    by (simp add: show_number_def)
  show ?thesis
    using d by (simp add: navigateToLine_def Let_def s e m)
qed

theorem navigateToLine_range_witness:
  "lineSuccess (fst (navigateToLine large_unused
       (snd (splitSnapshotIntoSpans (new_tab (Some 100) :: nat tab)
          (''ab'' @ [NL] @ ''cd'' @ [NL] @ ''ef''))) 2 1))
   \<and> content (fst (navigateToLine large_unused
       (snd (splitSnapshotIntoSpans (new_tab (Some 100) :: nat tab)
          (''ab'' @ [NL] @ ''cd'' @ [NL] @ ''ef''))) 2 1))
       = ''    1: ab'' @ [NL] @ ''>>> 2: cd'' @ [NL] @ ''    3: ef''
   \<and> \<not> lineSuccess (fst (navigateToLine large_unused
       (snd (splitSnapshotIntoSpans (new_tab (Some 100) :: nat tab)
          (''ab'' @ [NL] @ ''cd'' @ [NL] @ ''ef''))) 0 1))
   \<and> \<not> lineSuccess (fst (navigateToLine large_unused
       (snd (splitSnapshotIntoSpans (new_tab (Some 100) :: nat tab)
          (''ab'' @ [NL] @ ''cd'' @ [NL] @ ''ef''))) 4 1))"
proof -
  let ?T = "snd (splitSnapshotIntoSpans (new_tab (Some 100) :: nat tab)
          (''ab'' @ [NL] @ ''cd'' @ [NL] @ ''ef''))"
  have g: "globalLines ?T \<noteq> []" by code_simp
  have n: "int (length (globalLines ?T)) = 3" by code_simp
  have c: "content (fst (navigateToLine large_unused ?T 2 1))
       = ''    1: ab'' @ [NL] @ ''>>> 2: cd'' @ [NL] @ ''    3: ef''" by code_simp
  from navigateToLine_range [of large_unused ?T 2 1] g n
  have s: "lineSuccess (fst (navigateToLine large_unused ?T 2 1))" by simp
  from navigateToLine_range [of large_unused ?T 2 1] n
  have f0: "\<not> lineSuccess (fst (navigateToLine large_unused ?T 0 1))"
    and f4: "\<not> lineSuccess (fst (navigateToLine large_unused ?T 4 1))" by simp_all
  from s c f0 f4 show ?thesis by simp
qed

section \<open>Properties of the split\<close>

subsection \<open>Strings\<close>

lemma split_nl_nonempty [simp]: "split_nl s \<noteq> []"
  by (induction s) (auto split: list.splits)

lemma trimEnd_Nil_iff: "trimEnd s = [] \<longleftrightarrow> (\<forall>c \<in> set s. is_space c)"
  by (auto simp: trimEnd_def dropWhile_eq_Nil_conv)

lemma trimEnd_last: "trimEnd s \<noteq> [] \<Longrightarrow> \<not> is_space (last (trimEnd s))"
proof -
  assume a: "trimEnd s \<noteq> []"
  then have ne: "dropWhile is_space (rev s) \<noteq> []" by (simp add: trimEnd_def)
  then have "\<not> is_space (hd (dropWhile is_space (rev s)))" by (rule hd_dropWhile)
  moreover have "last (trimEnd s) = hd (dropWhile is_space (rev s))"
    using ne by (simp add: trimEnd_def last_rev)
  ultimately show ?thesis by simp
qed

lemma trim_Nil_iff: "trim s = [] \<longleftrightarrow> (\<forall>c \<in> set s. is_space c)"
proof
  assume t: "trim s = []"
  then have all: "\<forall>c \<in> set (trimEnd s). is_space c"
    by (simp add: trim_def dropWhile_eq_Nil_conv)
  have "trimEnd s = []"
  proof (rule ccontr)
    assume ne: "trimEnd s \<noteq> []"
    then have "last (trimEnd s) \<in> set (trimEnd s)" by simp
    with all trimEnd_last [OF ne] show False by blast
  qed
  then show "\<forall>c \<in> set s. is_space c" by (simp add: trimEnd_Nil_iff)
next
  assume "\<forall>c \<in> set s. is_space c"
  then have "trimEnd s = []" by (simp add: trimEnd_Nil_iff)
  then show "trim s = []" by (simp add: trim_def)
qed

lemma NL_space: "is_space NL"
  by (simp add: is_space_def NL_def)

lemma trimEnd_shorter:
  assumes "s \<noteq> []" and "is_space (last s)"
  shows "Suc (length (trimEnd s)) \<le> length s"
proof (cases s rule: rev_cases)
  case Nil
  with assms(1) show ?thesis by simp
next
  case (snoc ys y)
  then show ?thesis
    using assms(2) length_dropWhile_le [of is_space "rev ys"] by (simp add: trimEnd_def)
qed

lemma lineToAdd_last: "lineToAdd spanSize l \<noteq> [] \<and> last (lineToAdd spanSize l) = NL"
  by (simp add: lineToAdd_def)

lemma lineToAdd_space:
  assumes "\<forall>c \<in> set (lineToAdd spanSize l). is_space c"
  shows "\<forall>c \<in> set l. is_space c"
proof (cases "int (length (l @ [NL])) > spanSize")
  case True
  then have "CHR ''.'' \<in> set (lineToAdd spanSize l)" by (simp add: lineToAdd_def)
  with assms have "is_space CHR ''.''" by blast
  then show ?thesis by (simp add: is_space_def)
next
  case False
  then show ?thesis using assms by (simp add: lineToAdd_def)
qed

lemma lineToAdd_truncated:
  assumes "50 \<le> spanSize" and "spanSize \<le> int (length l)"
  shows "lineToAdd spanSize l
           = take (nat (spanSize - 50)) l
             @ ''... [line truncated, originally with '' @ show_nat (length l) @ '' chars]''
             @ [NL]"
    and "int (length (take (nat (spanSize - 50)) l)) = spanSize - 50"
    and "int (length (lineToAdd spanSize l)) + 5 = spanSize + int (length (show_nat (length l)))"
  using assms by (simp_all add: lineToAdd_def min_def)

subsection \<open>Contiguous ranges\<close>

lemma contiguous_append:
  "contiguous a (rs @ [rg]) \<longleftrightarrow>
     contiguous a rs \<and> startLine rg = (if rs = [] then a else endLine (last rs) + 1)
     \<and> startLine rg \<le> endLine rg"
  by (induction rs arbitrary: a) auto

lemma contiguous_bounds:
  "contiguous a rs \<Longrightarrow> rg \<in> set rs \<Longrightarrow>
     a \<le> startLine rg \<and> startLine rg \<le> endLine rg \<and> endLine rg \<le> endLine (last rs)"
proof (induction rs arbitrary: a rg)
  case Nil
  then show ?case by simp
next
  case (Cons r rs)
  show ?case
  proof (cases "rg = r")
    case True
    show ?thesis
    proof (cases rs)
      case Nil
      then show ?thesis using Cons.prems True by simp
    next
      case (Cons r' rs')
      then have "r' \<in> set rs" by simp
      from Cons.IH [of "endLine r + 1" r'] this Cons.prems(1)
      have "endLine r + 1 \<le> startLine r' \<and> startLine r' \<le> endLine r' \<and> endLine r' \<le> endLine (last rs)"
        by simp
      then show ?thesis using Cons.prems True Cons by simp
    qed
  next
    case False
    then have in_rs: "rg \<in> set rs" using Cons.prems by simp
    then have "rs \<noteq> []" by auto
    moreover from Cons.IH [of "endLine r + 1" rg] in_rs Cons.prems(1)
    have "endLine r + 1 \<le> startLine rg \<and> startLine rg \<le> endLine rg \<and> endLine rg \<le> endLine (last rs)"
      by simp
    ultimately show ?thesis using Cons.prems by simp
  qed
qed

lemma contiguous_covered:
  "contiguous 1 rs \<Longrightarrow> rg \<in> set rs \<Longrightarrow>
     1 \<le> startLine rg \<and> startLine rg \<le> endLine rg \<and> endLine rg \<le> covered rs"
  using contiguous_bounds [of 1 rs rg] by (auto simp: covered_def)

lemma contiguous_nth:
  "contiguous a rs \<Longrightarrow> Suc k < length rs \<Longrightarrow> startLine (rs ! Suc k) = endLine (rs ! k) + 1"
proof (induction rs arbitrary: a k)
  case Nil
  then show ?case by simp
next
  case (Cons r rs)
  show ?case
  proof (cases k)
    case 0
    then show ?thesis using Cons.prems by (cases rs) auto
  next
    case (Suc j)
    then show ?thesis using Cons.prems Cons.IH [of "endLine r + 1" j] by simp
  qed
qed

lemma contiguous_hd: "contiguous a rs \<Longrightarrow> rs \<noteq> [] \<Longrightarrow> startLine (hd rs) = a"
  by (cases rs) auto

lemma contiguous_covers:
  "contiguous a rs \<Longrightarrow> a \<le> w \<Longrightarrow> rs \<noteq> [] \<Longrightarrow> w \<le> endLine (last rs) \<Longrightarrow>
     \<exists>rg \<in> set rs. startLine rg \<le> w \<and> w \<le> endLine rg"
proof (induction rs arbitrary: a)
  case Nil
  then show ?case by simp
next
  case (Cons r rs)
  show ?case
  proof (cases "w \<le> endLine r")
    case True
    then show ?thesis using Cons.prems by auto
  next
    case False
    then have ne: "rs \<noteq> []" using Cons.prems by (cases rs) auto
    from Cons.IH [of "endLine r + 1"] Cons.prems False ne show ?thesis by auto
  qed
qed

lemma lines_of_append:
  "1 \<le> startLine rg \<Longrightarrow> endLine rg \<le> int (length seen) \<Longrightarrow>
     lines_of rg (seen @ extra) = lines_of rg seen"
  by (auto simp: lines_of_def)

lemma lines_of_tail:
  "k \<le> length seen \<Longrightarrow>
     lines_of \<lparr> startLine = int k + 1, endLine = int (length seen) \<rparr> (seen @ extra) = drop k seen"
  by (auto simp: lines_of_def)

subsection \<open>The loop keeps its invariant\<close>

lemma split_step_inv:
  assumes "split_inv spanSize seen acc"
  shows "split_inv spanSize (seen @ [l]) (split_step spanSize (length seen) l acc)"
proof -
  let ?k = "spanStartLineIndex acc"
  from assms have len: "currentLength acc = int (length (currentSpan acc))"
    and k: "?k \<le> length seen"
    and cur: "currentSpan acc = concat (map (lineToAdd spanSize) (drop ?k seen))"
    and cont: "contiguous 1 (lineMap acc)"
    and cov: "covered (lineMap acc) = int ?k"
    and sp: "spans acc = map (\<lambda>rg. span_text spanSize (lines_of rg seen)) (lineMap acc)"
    by (simp_all add: split_inv_def)
  have old: "map (\<lambda>rg. span_text spanSize (lines_of rg (seen @ [l]))) (lineMap acc)
           = map (\<lambda>rg. span_text spanSize (lines_of rg seen)) (lineMap acc)"
  proof (rule map_cong [OF refl])
    fix rg assume "rg \<in> set (lineMap acc)"
    from contiguous_covered [OF cont this] cov k
    have "1 \<le> startLine rg" "endLine rg \<le> int (length seen)" by simp_all
    then show "span_text spanSize (lines_of rg (seen @ [l])) = span_text spanSize (lines_of rg seen)"
      by (simp add: lines_of_append)
  qed
  show ?thesis
  proof (cases "currentLength acc + int (length (lineToAdd spanSize l)) > spanSize
                \<and> length (currentSpan acc) > 0")
    case True
    then have "drop ?k seen \<noteq> []" using cur by auto
    then have lt: "?k < length seen" by simp
    have new: "span_text spanSize
                 (lines_of \<lparr> startLine = int ?k + 1, endLine = int (length seen) \<rparr> (seen @ [l]))
               = trimEnd (currentSpan acc)"
      using k by (simp add: lines_of_tail span_text_def cur)
    have cov': "(if lineMap acc = [] then 1 else endLine (last (lineMap acc)) + 1) = int ?k + 1"
      using cov by (simp add: covered_def split: if_splits)
    show ?thesis
      using True lt cont cov'
      by (simp add: split_step_def Let_def split_inv_def contiguous_append covered_def old sp new)
  next
    case False
    then show ?thesis
      using len k cur cont cov
      by (auto simp: split_step_def Let_def split_inv_def old sp)
  qed
qed

lemma split_loop_inv:
  "split_inv spanSize seen acc \<Longrightarrow>
     split_inv spanSize (seen @ rest) (split_loop spanSize (length seen) rest acc)"
proof (induction rest arbitrary: seen acc)
  case Nil
  then show ?case by simp
next
  case (Cons l rest)
  from Cons.IH [OF split_step_inv [OF Cons.prems], of l] show ?case by simp
qed

lemma split_init_inv: "split_inv spanSize [] split_init"
  by (simp add: split_inv_def split_init_def covered_def)

lemma split_loop_inv0: "split_inv spanSize ls (split_loop spanSize 0 ls split_init)"
  using split_loop_inv [OF split_init_inv, of spanSize ls] by simp

lemma split_run_spec:
  "contiguous 1 (lineMap (split_run spanSize ls))
   \<and> covered (lineMap (split_run spanSize ls)) \<le> int (length ls)
   \<and> spans (split_run spanSize ls)
       = map (\<lambda>rg. span_text spanSize (lines_of rg ls)) (lineMap (split_run spanSize ls))
   \<and> (\<forall>l \<in> set (drop (nat (covered (lineMap (split_run spanSize ls)))) ls).
         \<forall>c \<in> set l. is_space c)"
proof -
  let ?acc = "split_loop spanSize 0 ls split_init"
  let ?k = "spanStartLineIndex ?acc"
  have inv: "split_inv spanSize ls ?acc" by (rule split_loop_inv0)
  then have k: "?k \<le> length ls"
    and cur: "currentSpan ?acc = concat (map (lineToAdd spanSize) (drop ?k ls))"
    and cont: "contiguous 1 (lineMap ?acc)"
    and cov: "covered (lineMap ?acc) = int ?k"
    and sp: "spans ?acc = map (\<lambda>rg. span_text spanSize (lines_of rg ls)) (lineMap ?acc)"
    by (simp_all add: split_inv_def)
  show ?thesis
  proof (cases "length (trim (currentSpan ?acc)) > 0")
    case True
    then have "currentSpan ?acc \<noteq> []" by (auto simp: trim_def trimEnd_def)
    then have "drop ?k ls \<noteq> []" using cur by auto
    then have lt: "?k < length ls" by simp
    have new: "span_text spanSize
                 (lines_of \<lparr> startLine = int ?k + 1, endLine = int (length ls) \<rparr> ls)
               = trimEnd (currentSpan ?acc)"
      using k lines_of_tail [of ?k ls "[]"] by (simp add: span_text_def cur)
    have cov': "(if lineMap ?acc = [] then 1 else endLine (last (lineMap ?acc)) + 1) = int ?k + 1"
      using cov by (simp add: covered_def split: if_splits)
    show ?thesis
      using True lt cont cov'
      by (simp add: split_run_def split_finish_def contiguous_append covered_def sp new)
  next
    case False
    then have "\<forall>c \<in> set (currentSpan ?acc). is_space c" by (simp add: trim_Nil_iff)
    then have "\<forall>l \<in> set (drop ?k ls). \<forall>c \<in> set (lineToAdd spanSize l). is_space c"
      by (simp add: cur)
    then have "\<forall>l \<in> set (drop ?k ls). \<forall>c \<in> set l. is_space c"
      using lineToAdd_space by blast
    then show ?thesis
      using False k cont cov sp by (simp add: split_run_def split_finish_def)
  qed
qed

lemma split_run_tail:
  "\<forall>l \<in> set (drop (nat (covered (lineMap (split_run spanSize ls)))) ls).
      \<forall>c \<in> set (lineToAdd spanSize l). is_space c"
proof -
  let ?acc = "split_loop spanSize 0 ls split_init"
  let ?k = "spanStartLineIndex ?acc"
  have inv: "split_inv spanSize ls ?acc" by (rule split_loop_inv0)
  then have k: "?k \<le> length ls"
    and cur: "currentSpan ?acc = concat (map (lineToAdd spanSize) (drop ?k ls))"
    and cov: "covered (lineMap ?acc) = int ?k"
    by (simp_all add: split_inv_def)
  show ?thesis
  proof (cases "length (trim (currentSpan ?acc)) > 0")
    case True
    then have "covered (lineMap (split_run spanSize ls)) = int (length ls)"
      by (simp add: split_run_def split_finish_def covered_def)
    then show ?thesis by simp
  next
    case False
    then have "\<forall>c \<in> set (currentSpan ?acc). is_space c" by (simp add: trim_Nil_iff)
    then have "\<forall>l \<in> set (drop ?k ls). \<forall>c \<in> set (lineToAdd spanSize l). is_space c"
      by (simp add: cur)
    then show ?thesis using False cov by (simp add: split_run_def split_finish_def)
  qed
qed

lemma covered_nonneg: "contiguous 1 rs \<Longrightarrow> 0 \<le> covered rs"
  using contiguous_covered [of rs "last rs"] by (cases "rs = []") (simp_all add: covered_def)

lemma drop_all_space_last:
  assumes "\<forall>l \<in> set (drop k ls). \<forall>c \<in> set l. is_space c" and "ls \<noteq> []"
    and "\<not> (\<forall>c \<in> set (last ls). is_space c)"
  shows "length ls \<le> k"
proof (rule ccontr)
  assume "\<not> length ls \<le> k"
  then have "drop k ls \<noteq> []" by simp
  then have "last (drop k ls) \<in> set (drop k ls)" by (rule last_in_set)
  moreover have "last (drop k ls) = last ls" using \<open>\<not> length ls \<le> k\<close> by simp
  ultimately show False using assms by auto
qed

text \<open>
  C1, as the code has it. The recorded ranges start at line 1, each next range starts on
  the line after the end of the one before, no range is empty and none ends after the
  last line. The lines after the last recorded range consist of white space only, so the
  last range ends on the last line whenever that line has a character that is not white
  space. With the sentinel -1 there is one span, the text itself, with the range
  \<open>[1, lineCount]\<close>. Otherwise each span is the text of the lines of its range, one
  after the other, each line truncated if long, with the white space at the end of the
  span removed; with no range recorded the result is the single empty span.
\<close>

theorem span_ranges_partition:
  fixes t :: "'m tab"
  shows
  "globalLines (snd (splitSnapshotIntoSpans t snapshot)) = split_nl snapshot
   \<and> (spanToGlobalLineMap (snd (splitSnapshotIntoSpans t snapshot)) \<noteq> [] \<longrightarrow>
        startLine (hd (spanToGlobalLineMap (snd (splitSnapshotIntoSpans t snapshot)))) = 1)
   \<and> (\<forall>k. Suc k < length (spanToGlobalLineMap (snd (splitSnapshotIntoSpans t snapshot))) \<longrightarrow>
        startLine (spanToGlobalLineMap (snd (splitSnapshotIntoSpans t snapshot)) ! Suc k)
          = endLine (spanToGlobalLineMap (snd (splitSnapshotIntoSpans t snapshot)) ! k) + 1)
   \<and> (\<forall>rg \<in> set (spanToGlobalLineMap (snd (splitSnapshotIntoSpans t snapshot))).
        startLine rg \<le> endLine rg \<and> endLine rg \<le> int (length (split_nl snapshot)))
   \<and> (\<forall>l \<in> set (drop (nat (covered (spanToGlobalLineMap (snd (splitSnapshotIntoSpans t snapshot)))))
                     (split_nl snapshot)).
        \<forall>c \<in> set l. is_space c)
   \<and> (\<not> (\<forall>c \<in> set (last (split_nl snapshot)). is_space c) \<longrightarrow>
        spanToGlobalLineMap (snd (splitSnapshotIntoSpans t snapshot)) \<noteq> []
        \<and> endLine (last (spanToGlobalLineMap (snd (splitSnapshotIntoSpans t snapshot))))
            = int (length (split_nl snapshot)))
   \<and> (snapshotSpanSize t = - 1 \<longrightarrow>
        fst (splitSnapshotIntoSpans t snapshot) = [snapshot]
        \<and> spanToGlobalLineMap (snd (splitSnapshotIntoSpans t snapshot))
            = [\<lparr> startLine = 1, endLine = int (length (split_nl snapshot)) \<rparr>])
   \<and> (snapshotSpanSize t \<noteq> - 1 \<longrightarrow>
        (spanToGlobalLineMap (snd (splitSnapshotIntoSpans t snapshot)) \<noteq> [] \<longrightarrow>
           fst (splitSnapshotIntoSpans t snapshot)
             = map (\<lambda>rg. trimEnd (concat (map (lineToAdd (snapshotSpanSize t))
                                              (lines_of rg (split_nl snapshot)))))
                 (spanToGlobalLineMap (snd (splitSnapshotIntoSpans t snapshot))))
        \<and> (spanToGlobalLineMap (snd (splitSnapshotIntoSpans t snapshot)) = [] \<longrightarrow>
           fst (splitSnapshotIntoSpans t snapshot) = [[]]))"
proof -
  let ?ls = "split_nl snapshot"
  let ?rs = "spanToGlobalLineMap (snd (splitSnapshotIntoSpans t snapshot))"
  have n: "1 \<le> int (length ?ls)"
    using split_nl_nonempty [of snapshot] by (cases ?ls) simp_all
  have main: "contiguous 1 ?rs \<and> covered ?rs \<le> int (length ?ls)
              \<and> (\<forall>l \<in> set (drop (nat (covered ?rs)) ?ls). \<forall>c \<in> set l. is_space c)"
  proof (cases "snapshotSpanSize t = - 1")
    case True
    then show ?thesis using n by (simp add: splitSnapshotIntoSpans_def Let_def covered_def)
  next
    case False
    then show ?thesis
      using split_run_spec [of "snapshotSpanSize t" ?ls]
      by (simp add: splitSnapshotIntoSpans_def Let_def)
  qed
  then have cont: "contiguous 1 ?rs" and cov: "covered ?rs \<le> int (length ?ls)"
    and sp: "\<forall>l \<in> set (drop (nat (covered ?rs)) ?ls). \<forall>c \<in> set l. is_space c"
    by simp_all
  have g: "globalLines (snd (splitSnapshotIntoSpans t snapshot)) = ?ls"
    by (simp add: splitSnapshotIntoSpans_def Let_def)
  have h: "?rs \<noteq> [] \<longrightarrow> startLine (hd ?rs) = 1"
    using contiguous_hd [OF cont] by simp
  have s: "\<forall>k. Suc k < length ?rs \<longrightarrow> startLine (?rs ! Suc k) = endLine (?rs ! k) + 1"
    using contiguous_nth [OF cont] by simp
  have b: "\<forall>rg \<in> set ?rs. startLine rg \<le> endLine rg \<and> endLine rg \<le> int (length ?ls)"
    using contiguous_covered [OF cont] cov by fastforce
  have e: "\<not> (\<forall>c \<in> set (last ?ls). is_space c) \<longrightarrow>
             ?rs \<noteq> [] \<and> endLine (last ?rs) = int (length ?ls)"
  proof
    assume a: "\<not> (\<forall>c \<in> set (last ?ls). is_space c)"
    from drop_all_space_last [OF sp split_nl_nonempty a]
    have "int (length ?ls) \<le> covered ?rs" using n by simp
    with cov n show "?rs \<noteq> [] \<and> endLine (last ?rs) = int (length ?ls)"
      by (auto simp: covered_def split: if_splits)
  qed
  have w: "snapshotSpanSize t = - 1 \<longrightarrow>
        fst (splitSnapshotIntoSpans t snapshot) = [snapshot]
        \<and> ?rs = [\<lparr> startLine = 1, endLine = int (length ?ls) \<rparr>]"
    by (simp add: splitSnapshotIntoSpans_def Let_def)
  have c: "snapshotSpanSize t \<noteq> - 1 \<longrightarrow>
        (?rs \<noteq> [] \<longrightarrow>
           fst (splitSnapshotIntoSpans t snapshot)
             = map (\<lambda>rg. trimEnd (concat (map (lineToAdd (snapshotSpanSize t)) (lines_of rg ?ls)))) ?rs)
        \<and> (?rs = [] \<longrightarrow> fst (splitSnapshotIntoSpans t snapshot) = [[]])"
    using split_run_spec [of "snapshotSpanSize t" ?ls]
    by (simp add: splitSnapshotIntoSpans_def Let_def span_text_def)
  from g h s b sp e w c show ?thesis by blast
qed

text \<open>
  The ranges need not reach the last line: with span size 100, a line of 99 characters
  followed by a newline gives two lines and the single range \<open>[1, 1]\<close>.
\<close>

theorem span_ranges_partition_counterexample:
  "spanToGlobalLineMap (snd (splitSnapshotIntoSpans (new_tab (Some 100) :: nat tab)
       (replicate 99 CHR ''x'' @ [NL])))
     = [\<lparr> startLine = 1, endLine = 1 \<rparr>]
   \<and> length (split_nl (replicate 99 CHR ''x'' @ [NL])) = 2"
  by code_simp

theorem span_ranges_partition_witness:
  "list_ex (\<lambda>c. \<not> is_space c)
      (last (split_nl (replicate 60 CHR ''a'' @ [NL] @ replicate 60 CHR ''b'')))
   \<and> spanToGlobalLineMap (snd (splitSnapshotIntoSpans (new_tab (Some 100) :: nat tab)
         (replicate 60 CHR ''a'' @ [NL] @ replicate 60 CHR ''b'')))
       = [\<lparr> startLine = 1, endLine = 1 \<rparr>, \<lparr> startLine = 2, endLine = 2 \<rparr>]
   \<and> fst (splitSnapshotIntoSpans (new_tab (Some 100) :: nat tab)
         (replicate 60 CHR ''a'' @ [NL] @ replicate 60 CHR ''b''))
       = [replicate 60 CHR ''a'', replicate 60 CHR ''b'']
   \<and> endLine (last (spanToGlobalLineMap (snd (splitSnapshotIntoSpans (new_tab (Some 100) :: nat tab)
         (replicate 60 CHR ''a'' @ [NL] @ replicate 60 CHR ''b''))))) = 2"
proof -
  let ?T = "new_tab (Some 100) :: nat tab"
  let ?S = "replicate 60 CHR ''a'' @ [NL] @ replicate 60 CHR ''b''"
  have a: "list_ex (\<lambda>c. \<not> is_space c) (last (split_nl ?S))" by code_simp
  have n: "int (length (split_nl ?S)) = 2" by code_simp
  have m: "spanToGlobalLineMap (snd (splitSnapshotIntoSpans ?T ?S))
       = [\<lparr> startLine = 1, endLine = 1 \<rparr>, \<lparr> startLine = 2, endLine = 2 \<rparr>]" by code_simp
  have s: "fst (splitSnapshotIntoSpans ?T ?S) = [replicate 60 CHR ''a'', replicate 60 CHR ''b'']"
    by code_simp
  from a have "\<not> (\<forall>c \<in> set (last (split_nl ?S)). is_space c)"
    by (simp add: list_ex_iff)
  with span_ranges_partition [of ?T ?S]
  have "endLine (last (spanToGlobalLineMap (snd (splitSnapshotIntoSpans ?T ?S))))
          = int (length (split_nl ?S))"
    by blast
  with a n m s show ?thesis by simp
qed

subsection \<open>The length of a span\<close>

lemma lineToAdd_len_ok:
  assumes "50 \<le> spanSize" and "l \<in> set ls"
  shows "len_ok spanSize ls (length (lineToAdd spanSize l))"
proof (cases "spanSize \<le> int (length l)")
  case True
  from lineToAdd_truncated(3) [OF assms(1) True] assms(2) True show ?thesis
    unfolding len_ok_def by force
next
  case False
  then show ?thesis by (simp add: len_ok_def lineToAdd_def)
qed

lemma len_ok_mono:
  "len_ok spanSize ls n \<Longrightarrow> set ls \<subseteq> set ls' \<Longrightarrow> m \<le> n \<Longrightarrow> len_ok spanSize ls' m"
  unfolding len_ok_def by fastforce

lemma split_step_len_inv:
  assumes "len_inv spanSize seen acc" and "50 \<le> spanSize"
  shows "len_inv spanSize (seen @ [l]) (split_step spanSize (length seen) l acc)"
proof -
  from assms(1) have len: "currentLength acc = int (length (currentSpan acc))"
    and old: "\<forall>s \<in> set (spans acc). len_ok spanSize seen (Suc (length s))"
    and cur: "currentSpan acc = []
              \<or> last (currentSpan acc) = NL \<and> len_ok spanSize seen (length (currentSpan acc))"
    by (simp_all add: len_inv_def)
  have old': "\<forall>s \<in> set (spans acc). len_ok spanSize (seen @ [l]) (Suc (length s))"
    using old len_ok_mono [of spanSize seen _ "seen @ [l]"] by auto
  have new: "len_ok spanSize (seen @ [l]) (length (lineToAdd spanSize l))"
    by (rule lineToAdd_len_ok [OF assms(2)]) simp
  show ?thesis
  proof (cases "currentLength acc + int (length (lineToAdd spanSize l)) > spanSize
                \<and> length (currentSpan acc) > 0")
    case True
    then have ne: "currentSpan acc \<noteq> []" by simp
    with cur have l: "last (currentSpan acc) = NL"
      and ok: "len_ok spanSize seen (length (currentSpan acc))" by simp_all
    from trimEnd_shorter [OF ne] l NL_space
    have "Suc (length (trimEnd (currentSpan acc))) \<le> length (currentSpan acc)" by simp
    with len_ok_mono [OF ok, of "seen @ [l]" "Suc (length (trimEnd (currentSpan acc)))"]
    have "len_ok spanSize (seen @ [l]) (Suc (length (trimEnd (currentSpan acc))))"
      by auto
    then show ?thesis
      using True old' new lineToAdd_last [of spanSize l]
      by (simp add: split_step_def Let_def len_inv_def)
  next
    case False
    have "len_ok spanSize (seen @ [l]) (length (currentSpan acc @ lineToAdd spanSize l))"
    proof (cases "currentSpan acc = []")
      case True
      then show ?thesis using new by simp
    next
      case False
      with \<open>\<not> (currentLength acc + int (length (lineToAdd spanSize l)) > spanSize
                \<and> length (currentSpan acc) > 0)\<close> len
      show ?thesis by (simp add: len_ok_def)
    qed
    then show ?thesis
      using False old' len lineToAdd_last [of spanSize l]
      by (auto simp: split_step_def Let_def len_inv_def)
  qed
qed

lemma split_loop_len_inv:
  "len_inv spanSize seen acc \<Longrightarrow> 50 \<le> spanSize \<Longrightarrow>
     len_inv spanSize (seen @ rest) (split_loop spanSize (length seen) rest acc)"
proof (induction rest arbitrary: seen acc)
  case Nil
  then show ?case by simp
next
  case (Cons l rest)
  from Cons.IH [OF split_step_len_inv [OF Cons.prems], of l] Cons.prems(2) show ?case by simp
qed

lemma split_run_len:
  assumes "50 \<le> spanSize" and "s \<in> set (spans (split_run spanSize ls))"
  shows "len_ok spanSize ls (Suc (length s))"
proof -
  let ?acc = "split_loop spanSize 0 ls split_init"
  have "len_inv spanSize [] split_init" by (simp add: len_inv_def split_init_def)
  from split_loop_len_inv [OF this assms(1), of ls]
  have inv: "len_inv spanSize ls ?acc" by simp
  then have old: "\<forall>s \<in> set (spans ?acc). len_ok spanSize ls (Suc (length s))"
    and cur: "currentSpan ?acc = []
              \<or> last (currentSpan ?acc) = NL \<and> len_ok spanSize ls (length (currentSpan ?acc))"
    by (simp_all add: len_inv_def)
  show ?thesis
  proof (cases "s \<in> set (spans ?acc)")
    case True
    with old show ?thesis by simp
  next
    case False
    with assms(2) have t: "length (trim (currentSpan ?acc)) > 0" and s: "s = trimEnd (currentSpan ?acc)"
      by (auto simp: split_run_def split_finish_def split: if_splits)
    from t have ne: "currentSpan ?acc \<noteq> []" by (auto simp: trim_def trimEnd_def)
    with cur have l: "last (currentSpan ?acc) = NL"
      and ok: "len_ok spanSize ls (length (currentSpan ?acc))" by simp_all
    from trimEnd_shorter [OF ne] l NL_space
    have "Suc (length (trimEnd (currentSpan ?acc))) \<le> length (currentSpan ?acc)" by simp
    with len_ok_mono [OF ok, of ls "Suc (length (trimEnd (currentSpan ?acc)))"]
    have "len_ok spanSize ls (Suc (length (trimEnd (currentSpan ?acc))))"
      by auto
    with s show ?thesis by simp
  qed
qed

lemma fill_ok_tail:
  assumes "split_inv spanSize seen acc" and "fill_inv spanSize seen acc"
    and "currentSpan acc \<noteq> []"
  shows "fill_ok spanSize (seen @ extra)
           \<lparr> startLine = int (spanStartLineIndex acc) + 1, endLine = int (length seen) \<rparr>"
proof -
  let ?k = "spanStartLineIndex acc"
  from assms(1) have k: "?k \<le> length seen"
    and cur: "currentSpan acc = concat (map (lineToAdd spanSize) (drop ?k seen))"
    by (simp_all add: split_inv_def)
  from assms(3) cur have "drop ?k seen \<noteq> []" by auto
  then have lt: "?k < length seen" by simp
  from assms(2) consider "length seen \<le> Suc ?k" | "int (length (currentSpan acc)) \<le> spanSize"
    by (auto simp: fill_inv_def)
  then show ?thesis
  proof cases
    case 1
    with lt have "int ?k + 1 = int (length seen)" by simp
    then show ?thesis by (simp add: fill_ok_def)
  next
    case 2
    then show ?thesis using k by (simp add: fill_ok_def lines_of_tail cur)
  qed
qed

lemma fill_ok_old:
  assumes "split_inv spanSize seen acc" and "fill_inv spanSize seen acc"
  shows "\<forall>rg \<in> set (lineMap acc). fill_ok spanSize (seen @ extra) rg"
proof
  fix rg assume rg: "rg \<in> set (lineMap acc)"
  from assms(1) have k: "spanStartLineIndex acc \<le> length seen"
    and cont: "contiguous 1 (lineMap acc)"
    and cov: "covered (lineMap acc) = int (spanStartLineIndex acc)"
    by (simp_all add: split_inv_def)
  from contiguous_covered [OF cont rg] cov k
  have "1 \<le> startLine rg" "endLine rg \<le> int (length seen)" by simp_all
  then have "lines_of rg (seen @ extra) = lines_of rg seen" by (rule lines_of_append)
  with assms(2) rg show "fill_ok spanSize (seen @ extra) rg" by (simp add: fill_inv_def fill_ok_def)
qed

lemma split_step_fill:
  assumes "split_inv spanSize seen acc" and "fill_inv spanSize seen acc"
  shows "fill_inv spanSize (seen @ [l]) (split_step spanSize (length seen) l acc)"
proof -
  let ?k = "spanStartLineIndex acc"
  from assms(1) have len: "currentLength acc = int (length (currentSpan acc))"
    and k: "?k \<le> length seen"
    and cur: "currentSpan acc = concat (map (lineToAdd spanSize) (drop ?k seen))"
    by (simp_all add: split_inv_def)
  note old = fill_ok_old [OF assms, of "[l]"]
  show ?thesis
  proof (cases "currentLength acc + int (length (lineToAdd spanSize l)) > spanSize
                \<and> length (currentSpan acc) > 0")
    case True
    then have "currentSpan acc \<noteq> []" by simp
    from fill_ok_tail [OF assms this, of "[l]"] old True show ?thesis
      by (simp add: split_step_def Let_def fill_inv_def)
  next
    case False
    have "length (seen @ [l]) \<le> Suc ?k
          \<or> int (length (currentSpan acc @ lineToAdd spanSize l)) \<le> spanSize"
    proof (cases "currentSpan acc = []")
      case True
      with cur have "drop ?k seen = []" using lineToAdd_last [of spanSize] by (cases "drop ?k seen") auto
      then show ?thesis using k by simp
    next
      case ne: False
      with False len show ?thesis by simp
    qed
    with False old show ?thesis by (auto simp: split_step_def Let_def fill_inv_def)
  qed
qed

lemma split_loop_fill:
  "split_inv spanSize seen acc \<Longrightarrow> fill_inv spanSize seen acc \<Longrightarrow>
     fill_inv spanSize (seen @ rest) (split_loop spanSize (length seen) rest acc)"
proof (induction rest arbitrary: seen acc)
  case Nil
  then show ?case by simp
next
  case (Cons l rest)
  from Cons.IH [OF split_step_inv [OF Cons.prems(1)] split_step_fill [OF Cons.prems], of l]
  show ?case by simp
qed

lemma split_run_fill:
  "\<forall>rg \<in> set (lineMap (split_run spanSize ls)). fill_ok spanSize ls rg"
proof -
  let ?acc = "split_loop spanSize 0 ls split_init"
  have inv: "split_inv spanSize ls ?acc" by (rule split_loop_inv0)
  have "fill_inv spanSize [] split_init" by (simp add: fill_inv_def split_init_def)
  from split_loop_fill [OF split_init_inv this, of ls]
  have f: "fill_inv spanSize ls ?acc" by simp
  show ?thesis
  proof (cases "length (trim (currentSpan ?acc)) > 0")
    case True
    then have "currentSpan ?acc \<noteq> []" by (auto simp: trim_def trimEnd_def)
    from fill_ok_tail [OF inv f this, of "[]"] f True show ?thesis
      by (simp add: split_run_def split_finish_def fill_inv_def)
  next
    case False
    with f show ?thesis by (simp add: split_run_def split_finish_def fill_inv_def)
  qed
qed

lemma lines_of_around:
  assumes "1 \<le> startLine rg" and "startLine rg \<le> int k + 1" and "int k + 1 \<le> endLine rg"
    and "endLine rg \<le> int (length ls)"
  shows "lines_of rg ls
         = lines_of \<lparr> startLine = startLine rg, endLine = int k \<rparr> ls @ [ls ! k]
           @ lines_of \<lparr> startLine = int k + 2, endLine = endLine rg \<rparr> ls"
proof -
  define p where "p = nat (startLine rg - 1)"
  define q where "q = k - p"
  define r where "r = nat (endLine rg - (int k + 2) + 1)"
  define n where "n = nat (endLine rg - startLine rg + 1)"
  have kq: "q + p = k" using assms by (simp add: p_def q_def)
  have k: "k < length ls" using assms by simp
  have n: "n = q + Suc r" using assms by (simp add: n_def q_def p_def r_def)
  have a: "nat (int k - startLine rg + 1) = q" using assms by (simp add: q_def p_def)
  have b: "nat (int k + 2 - 1) = Suc k" by simp
  have "take (q + Suc r) (drop p ls) = take q (drop p ls) @ take (Suc r) (drop q (drop p ls))"
    by (rule take_add)
  also have "drop q (drop p ls) = drop k ls" using kq by simp
  also have "drop k ls = ls ! k # drop (Suc k) ls" using k by (simp add: Cons_nth_drop_Suc)
  finally have "take n (drop p ls) = take q (drop p ls) @ [ls ! k] @ take r (drop (Suc k) ls)"
    using n by simp
  moreover have "lines_of rg ls = take n (drop p ls)"
    by (simp add: lines_of_def n_def p_def)
  moreover have "lines_of \<lparr> startLine = startLine rg, endLine = int k \<rparr> ls = take q (drop p ls)"
    using a by (simp add: lines_of_def p_def)
  moreover have "lines_of \<lparr> startLine = int k + 2, endLine = endLine rg \<rparr> ls
                   = take r (drop (Suc k) ls)"
    using b by (simp add: lines_of_def r_def)
  ultimately show ?thesis by simp
qed

lemma show_nat_digits: "100 \<le> n \<Longrightarrow> 3 \<le> length (show_nat n)"
proof -
  assume a: "100 \<le> n"
  have one: "\<And>m. 1 \<le> length (show_nat m)" by (subst show_nat.simps) simp
  have "10 \<le> n div 10" using a by simp
  then have "2 \<le> length (show_nat (n div 10))"
    using one [of "n div 10 div 10"] by (subst show_nat.simps) simp
  then show ?thesis using a by (subst show_nat.simps) simp
qed

lemma long_line_in_span:
  assumes "100 \<le> spanSize" and "k < length ls" and "spanSize \<le> int (length (ls ! k))"
  shows "\<exists>j < length (lineMap (split_run spanSize ls)).
           startLine (lineMap (split_run spanSize ls) ! j) \<le> int k + 1
           \<and> int k + 1 \<le> endLine (lineMap (split_run spanSize ls) ! j)
           \<and> spans (split_run spanSize ls) ! j
               = trimEnd (concat (map (lineToAdd spanSize)
                            (lines_of \<lparr> startLine = startLine (lineMap (split_run spanSize ls) ! j),
                                        endLine = int k \<rparr> ls))
                   @ take (nat (spanSize - 50)) (ls ! k)
                   @ ''... [line truncated, originally with '' @ show_nat (length (ls ! k))
                   @ '' chars]'' @ [NL]
                   @ concat (map (lineToAdd spanSize)
                       (lines_of \<lparr> startLine = int k + 2,
                                   endLine = endLine (lineMap (split_run spanSize ls) ! j) \<rparr> ls)))
           \<and> length (concat (map (lineToAdd spanSize)
                  (lines_of \<lparr> startLine = startLine (lineMap (split_run spanSize ls) ! j),
                              endLine = int k \<rparr> ls)))
               + length (concat (map (lineToAdd spanSize)
                  (lines_of \<lparr> startLine = int k + 2,
                              endLine = endLine (lineMap (split_run spanSize ls) ! j) \<rparr> ls)))
               \<le> 2"
proof -
  let ?rs = "lineMap (split_run spanSize ls)"
  let ?f = "lineToAdd spanSize"
  from split_run_spec [of spanSize ls]
  have cont: "contiguous 1 ?rs" and cov: "covered ?rs \<le> int (length ls)"
    and sp: "spans (split_run spanSize ls) = map (\<lambda>rg. span_text spanSize (lines_of rg ls)) ?rs"
    by simp_all
  have b50: "50 \<le> spanSize" using assms(1) by simp
  note tr = lineToAdd_truncated [OF b50 assms(3)]
  have dot: "CHR ''.'' \<in> set (?f (ls ! k))" by (subst tr(1)) simp
  have kc: "int k + 1 \<le> covered ?rs"
  proof (rule ccontr)
    assume "\<not> int k + 1 \<le> covered ?rs"
    then have n: "nat (covered ?rs) \<le> k" using covered_nonneg [OF cont] by simp
    then have "k - nat (covered ?rs) < length (drop (nat (covered ?rs)) ls)"
      using assms(2) by simp
    then have "drop (nat (covered ?rs)) ls ! (k - nat (covered ?rs))
                 \<in> set (drop (nat (covered ?rs)) ls)"
      by (rule nth_mem)
    moreover have "drop (nat (covered ?rs)) ls ! (k - nat (covered ?rs)) = ls ! k"
      using n assms(2) by simp
    ultimately have "ls ! k \<in> set (drop (nat (covered ?rs)) ls)" by simp
    with split_run_tail [of spanSize ls] dot have "is_space CHR ''.''" by blast
    then show False by (simp add: is_space_def)
  qed
  then have ne: "?rs \<noteq> []" by (auto simp: covered_def split: if_splits)
  with kc have "int k + 1 \<le> endLine (last ?rs)" by (simp add: covered_def)
  from contiguous_covers [OF cont _ ne this]
  obtain rg where rg: "rg \<in> set ?rs" and s: "startLine rg \<le> int k + 1" and e: "int k + 1 \<le> endLine rg"
    by auto
  from rg obtain j where j: "j < length ?rs" and rj: "rg = ?rs ! j" by (auto simp: in_set_conv_nth)
  from contiguous_covered [OF cont rg] cov
  have s1: "1 \<le> startLine rg" and en: "endLine rg \<le> int (length ls)" by simp_all
  let ?bf = "lines_of \<lparr> startLine = startLine rg, endLine = int k \<rparr> ls"
  let ?af = "lines_of \<lparr> startLine = int k + 2, endLine = endLine rg \<rparr> ls"
  have dec: "lines_of rg ls = ?bf @ [ls ! k] @ ?af" by (rule lines_of_around [OF s1 s e en])
  have "spans (split_run spanSize ls) ! j = span_text spanSize (lines_of rg ls)"
    using j rj sp by simp
  also have "\<dots> = trimEnd (concat (map ?f ?bf) @ ?f (ls ! k) @ concat (map ?f ?af))"
    unfolding dec by (simp add: span_text_def)
  finally have spn: "spans (split_run spanSize ls) ! j
       = trimEnd (concat (map ?f ?bf)
           @ take (nat (spanSize - 50)) (ls ! k)
           @ ''... [line truncated, originally with '' @ show_nat (length (ls ! k))
           @ '' chars]'' @ [NL]
           @ concat (map ?f ?af))"
    unfolding tr(1) by simp
  have fill: "length (concat (map ?f ?bf)) + length (concat (map ?f ?af)) \<le> 2"
  proof (cases "startLine rg = endLine rg")
    case True
    with s e have "?bf = []" "?af = []" by (simp_all add: lines_of_def)
    then show ?thesis by simp
  next
    case False
    with split_run_fill [of spanSize ls] rg
    have "int (length (concat (map ?f (lines_of rg ls)))) \<le> spanSize"
      by (auto simp: fill_ok_def)
    then have "int (length (concat (map ?f ?bf))) + int (length (?f (ls ! k)))
                 + int (length (concat (map ?f ?af))) \<le> spanSize"
      unfolding dec by simp
    moreover have "3 \<le> length (show_nat (length (ls ! k)))"
      using assms(1,3) by (intro show_nat_digits) simp
    ultimately show ?thesis using tr(3) by linarith
  qed
  show ?thesis
    using j s e spn fill unfolding rj by blast
qed

text \<open>
  C4, as the code has it. For a span size of at least 100, every line at least as long
  as the span size is in the range of a recorded span, and the text of that span is the
  lines before it in the range, then the first \<open>size - 50\<close> characters of the line
  followed by the marker with the original length and a newline, then the lines after
  it in the range, with the white space at the end removed. The lines before and after
  it in the range contribute at most two characters together: the truncated line is
  packed like any other line and leaves room for no more. Every span is shorter than
  the span size, or shorter than \<open>size - 5\<close> plus the number of digits of the length
  of some line of the text that is at least as long as the span size: a span is longer
  than the span size only through the digits of the marker.
\<close>

theorem long_line_truncated:
  fixes t :: "'m tab"
  assumes "100 \<le> snapshotSpanSize t"
  shows
  "(\<forall>k < length (split_nl snapshot).
      snapshotSpanSize t \<le> int (length (split_nl snapshot ! k)) \<longrightarrow>
      int (length (take (nat (snapshotSpanSize t - 50)) (split_nl snapshot ! k)))
        = snapshotSpanSize t - 50
      \<and> (\<exists>j < length (spanToGlobalLineMap (snd (splitSnapshotIntoSpans t snapshot))).
           j < length (fst (splitSnapshotIntoSpans t snapshot))
           \<and> startLine (spanToGlobalLineMap (snd (splitSnapshotIntoSpans t snapshot)) ! j)
               \<le> int k + 1
           \<and> int k + 1
               \<le> endLine (spanToGlobalLineMap (snd (splitSnapshotIntoSpans t snapshot)) ! j)
           \<and> fst (splitSnapshotIntoSpans t snapshot) ! j
               = trimEnd (concat (map (lineToAdd (snapshotSpanSize t))
                   (lines_of
                      \<lparr> startLine =
                          startLine (spanToGlobalLineMap (snd (splitSnapshotIntoSpans t snapshot)) ! j),
                        endLine = int k \<rparr>
                      (split_nl snapshot)))
                   @ take (nat (snapshotSpanSize t - 50)) (split_nl snapshot ! k)
                   @ ''... [line truncated, originally with ''
                   @ show_nat (length (split_nl snapshot ! k)) @ '' chars]'' @ [NL]
                   @ concat (map (lineToAdd (snapshotSpanSize t))
                       (lines_of
                          \<lparr> startLine = int k + 2,
                            endLine =
                              endLine (spanToGlobalLineMap (snd (splitSnapshotIntoSpans t snapshot)) ! j) \<rparr>
                          (split_nl snapshot))))
           \<and> length (concat (map (lineToAdd (snapshotSpanSize t))
                   (lines_of
                      \<lparr> startLine =
                          startLine (spanToGlobalLineMap (snd (splitSnapshotIntoSpans t snapshot)) ! j),
                        endLine = int k \<rparr>
                      (split_nl snapshot))))
               + length (concat (map (lineToAdd (snapshotSpanSize t))
                       (lines_of
                          \<lparr> startLine = int k + 2,
                            endLine =
                              endLine (spanToGlobalLineMap (snd (splitSnapshotIntoSpans t snapshot)) ! j) \<rparr>
                          (split_nl snapshot))))
               \<le> 2))
   \<and> (\<forall>s \<in> set (fst (splitSnapshotIntoSpans t snapshot)).
        int (length s) < snapshotSpanSize t
        \<or> (\<exists>l \<in> set (split_nl snapshot).
              snapshotSpanSize t \<le> int (length l)
              \<and> int (length s) + 5 < snapshotSpanSize t + int (length (show_nat (length l)))))"
proof -
  let ?B = "snapshotSpanSize t"
  let ?ls = "split_nl snapshot"
  let ?run = "split_run ?B ?ls"
  have m: "spanToGlobalLineMap (snd (splitSnapshotIntoSpans t snapshot)) = lineMap ?run"
    using assms by (simp add: splitSnapshotIntoSpans_def Let_def)
  have a: "\<forall>k < length ?ls. ?B \<le> int (length (?ls ! k)) \<longrightarrow>
      int (length (take (nat (?B - 50)) (?ls ! k))) = ?B - 50
      \<and> (\<exists>j < length (lineMap ?run).
           j < length (fst (splitSnapshotIntoSpans t snapshot))
           \<and> startLine (lineMap ?run ! j) \<le> int k + 1
           \<and> int k + 1 \<le> endLine (lineMap ?run ! j)
           \<and> fst (splitSnapshotIntoSpans t snapshot) ! j
               = trimEnd (concat (map (lineToAdd ?B)
                   (lines_of \<lparr> startLine = startLine (lineMap ?run ! j), endLine = int k \<rparr> ?ls))
                   @ take (nat (?B - 50)) (?ls ! k)
                   @ ''... [line truncated, originally with ''
                   @ show_nat (length (?ls ! k)) @ '' chars]'' @ [NL]
                   @ concat (map (lineToAdd ?B)
                       (lines_of \<lparr> startLine = int k + 2, endLine = endLine (lineMap ?run ! j) \<rparr> ?ls)))
           \<and> length (concat (map (lineToAdd ?B)
                   (lines_of \<lparr> startLine = startLine (lineMap ?run ! j), endLine = int k \<rparr> ?ls)))
               + length (concat (map (lineToAdd ?B)
                       (lines_of \<lparr> startLine = int k + 2, endLine = endLine (lineMap ?run ! j) \<rparr> ?ls)))
               \<le> 2)"
  proof (intro allI impI)
    fix k assume k: "k < length ?ls" and long: "?B \<le> int (length (?ls ! k))"
    have b50: "50 \<le> ?B" using assms by simp
    from long_line_in_span [OF assms k long]
    obtain j where j: "j < length (lineMap ?run)"
      and rest: "startLine (lineMap ?run ! j) \<le> int k + 1"
        "int k + 1 \<le> endLine (lineMap ?run ! j)"
        "spans ?run ! j
               = trimEnd (concat (map (lineToAdd ?B)
                   (lines_of \<lparr> startLine = startLine (lineMap ?run ! j), endLine = int k \<rparr> ?ls))
                   @ take (nat (?B - 50)) (?ls ! k)
                   @ ''... [line truncated, originally with ''
                   @ show_nat (length (?ls ! k)) @ '' chars]'' @ [NL]
                   @ concat (map (lineToAdd ?B)
                       (lines_of \<lparr> startLine = int k + 2, endLine = endLine (lineMap ?run ! j) \<rparr> ?ls)))"
        "length (concat (map (lineToAdd ?B)
                   (lines_of \<lparr> startLine = startLine (lineMap ?run ! j), endLine = int k \<rparr> ?ls)))
               + length (concat (map (lineToAdd ?B)
                       (lines_of \<lparr> startLine = int k + 2, endLine = endLine (lineMap ?run ! j) \<rparr> ?ls)))
               \<le> 2"
      by blast
    from split_run_spec [of ?B ?ls]
    have "spans ?run = map (\<lambda>rg. span_text ?B (lines_of rg ?ls)) (lineMap ?run)" by simp
    then have len: "length (spans ?run) = length (lineMap ?run)" by simp
    with j have "spans ?run \<noteq> []" by auto
    then have f: "fst (splitSnapshotIntoSpans t snapshot) = spans ?run"
      using assms by (simp add: splitSnapshotIntoSpans_def Let_def)
    from lineToAdd_truncated(2) [OF b50 long] j rest f len
    show "int (length (take (nat (?B - 50)) (?ls ! k))) = ?B - 50
      \<and> (\<exists>j < length (lineMap ?run).
           j < length (fst (splitSnapshotIntoSpans t snapshot))
           \<and> startLine (lineMap ?run ! j) \<le> int k + 1
           \<and> int k + 1 \<le> endLine (lineMap ?run ! j)
           \<and> fst (splitSnapshotIntoSpans t snapshot) ! j
               = trimEnd (concat (map (lineToAdd ?B)
                   (lines_of \<lparr> startLine = startLine (lineMap ?run ! j), endLine = int k \<rparr> ?ls))
                   @ take (nat (?B - 50)) (?ls ! k)
                   @ ''... [line truncated, originally with ''
                   @ show_nat (length (?ls ! k)) @ '' chars]'' @ [NL]
                   @ concat (map (lineToAdd ?B)
                       (lines_of \<lparr> startLine = int k + 2, endLine = endLine (lineMap ?run ! j) \<rparr> ?ls)))
           \<and> length (concat (map (lineToAdd ?B)
                   (lines_of \<lparr> startLine = startLine (lineMap ?run ! j), endLine = int k \<rparr> ?ls)))
               + length (concat (map (lineToAdd ?B)
                       (lines_of \<lparr> startLine = int k + 2, endLine = endLine (lineMap ?run ! j) \<rparr> ?ls)))
               \<le> 2)"
      by (intro conjI exI [of _ j]) simp_all
  qed
  have b: "\<forall>s \<in> set (fst (splitSnapshotIntoSpans t snapshot)).
        int (length s) < ?B
        \<or> (\<exists>l \<in> set ?ls. ?B \<le> int (length l)
              \<and> int (length s) + 5 < ?B + int (length (show_nat (length l))))"
  proof
    fix s assume s: "s \<in> set (fst (splitSnapshotIntoSpans t snapshot))"
    have "len_ok ?B ?ls (Suc (length s))"
    proof (cases "s \<in> set (spans ?run)")
      case True
      then show ?thesis using assms split_run_len [of ?B s ?ls] by simp
    next
      case False
      with s assms have "s = []"
        by (auto simp: splitSnapshotIntoSpans_def Let_def split: if_splits)
      then show ?thesis using assms by (simp add: len_ok_def)
    qed
    then show "int (length s) < ?B
        \<or> (\<exists>l \<in> set ?ls. ?B \<le> int (length l)
              \<and> int (length s) + 5 < ?B + int (length (show_nat (length l))))"
      unfolding len_ok_def by fastforce
  qed
  from a b show ?thesis unfolding m by blast
qed

text \<open>
  A truncated line need not be alone in its span: with span size 100, an empty line
  followed by a line of 101 characters gives one span with the range \<open>[1, 2]\<close>.
\<close>

theorem long_line_truncated_counterexample:
  "length (split_nl (NL # replicate 101 CHR ''x'') ! 1) = 101
   \<and> spanToGlobalLineMap (snd (splitSnapshotIntoSpans (new_tab (Some 100) :: nat tab)
        (NL # replicate 101 CHR ''x'')))
      = [\<lparr> startLine = 1, endLine = 2 \<rparr>]
   \<and> fst (splitSnapshotIntoSpans (new_tab (Some 100) :: nat tab) (NL # replicate 101 CHR ''x''))
      = [NL # replicate 50 CHR ''x'' @ ''... [line truncated, originally with 101 chars]'']"
  by code_simp

theorem long_line_truncated_witness:
  "100 \<le> snapshotSpanSize (new_tab (Some 100) :: nat tab)
   \<and> length (split_nl (replicate 101 CHR ''x'')) = 1
   \<and> snapshotSpanSize (new_tab (Some 100) :: nat tab)
        \<le> int (length (split_nl (replicate 101 CHR ''x'') ! 0))
   \<and> int (length (take (nat (snapshotSpanSize (new_tab (Some 100) :: nat tab) - 50))
          (split_nl (replicate 101 CHR ''x'') ! 0))) = 50
   \<and> fst (splitSnapshotIntoSpans (new_tab (Some 100) :: nat tab) (replicate 101 CHR ''x''))
      = [replicate 50 CHR ''x'' @ ''... [line truncated, originally with 101 chars]'']
   \<and> spanToGlobalLineMap (snd (splitSnapshotIntoSpans (new_tab (Some 100) :: nat tab)
        (replicate 101 CHR ''x'')))
      = [\<lparr> startLine = 1, endLine = 1 \<rparr>]"
proof -
  let ?T = "new_tab (Some 100) :: nat tab"
  let ?S = "replicate 101 CHR ''x''"
  have h: "100 \<le> snapshotSpanSize ?T" by code_simp
  have z: "snapshotSpanSize ?T = 100" by code_simp
  have n: "length (split_nl ?S) = 1" by code_simp
  have g: "snapshotSpanSize ?T \<le> int (length (split_nl ?S ! 0))" by code_simp
  have s: "fst (splitSnapshotIntoSpans ?T ?S)
      = [replicate 50 CHR ''x'' @ ''... [line truncated, originally with 101 chars]'']"
    by code_simp
  have m: "spanToGlobalLineMap (snd (splitSnapshotIntoSpans ?T ?S))
      = [\<lparr> startLine = 1, endLine = 1 \<rparr>]" by code_simp
  from n have k: "0 < length (split_nl ?S)" by simp
  from long_line_truncated [OF h, of ?S] k g
  have "int (length (take (nat (snapshotSpanSize ?T - 50)) (split_nl ?S ! 0)))
          = snapshotSpanSize ?T - 50"
    by blast
  with z have "int (length (take (nat (snapshotSpanSize ?T - 50)) (split_nl ?S ! 0))) = 50"
    by simp
  with h n g s m show ?thesis by simp
qed

subsection \<open>Lines after the last span\<close>







section \<open>Properties of the cursor\<close>

lemma splitSnapshotIntoSpans_nonempty: "fst (splitSnapshotIntoSpans t s) \<noteq> []"
  by (simp add: splitSnapshotIntoSpans_def Let_def)

lemma onlyCurrentSpanChanged_iff:
  "onlyCurrentSpanChanged new old p idxs = (\<forall>i \<in> set idxs. int i \<noteq> p \<longrightarrow> new ! i = old ! i)"
  by (induction idxs) auto

lemma captureSnapshot_action_cursor: "0 \<le> currentSpanIndex t \<Longrightarrow> 0 \<le> currentSpanIndex (captureSnapshot_action t s)"
  using splitSnapshotIntoSpans_nonempty [of "t\<lparr>fullSnapshot := s\<rparr>" s]
  by (cases "fst (splitSnapshotIntoSpans (t\<lparr>fullSnapshot := s\<rparr>) s)")
     (auto simp: captureSnapshot_action_def Let_def)

lemma setSnapshotSpanSize_cursor: "0 \<le> currentSpanIndex t \<Longrightarrow> 0 \<le> currentSpanIndex (setSnapshotSpanSize t n)"
  using splitSnapshotIntoSpans_nonempty [of "t\<lparr>snapshotSpanSize := (if n = - 1 then - 1 else max 100 n)\<rparr>" "fullSnapshot t"]
  by (cases "fst (splitSnapshotIntoSpans (t\<lparr>snapshotSpanSize := (if n = - 1 then - 1 else max 100 n)\<rparr>) (fullSnapshot t))")
     (auto simp: setSnapshotSpanSize_def Let_def)

lemma reachable_cursor: "reachable t \<Longrightarrow> 0 \<le> currentSpanIndex t"
proof (induction rule: reachable.induct)
  case (init spanSize)
  then show ?case by (simp add: new_tab_def)
next
  case (reset t)
  then show ?case by (simp add: resetSnapshot_def)
next
  case (capture t snapshot)
  then show ?case by (simp add: captureSnapshot_action_cursor)
next
  case (resize t spanSize)
  then show ?case by (simp add: setSnapshotSpanSize_cursor)
next
  case (to_span t index)
  then show ?case by (simp add: navigateToSpan_def Let_def)
next
  case (set_modal t modalState)
  then show ?case by (simp add: setModalState_def)
next
  case (clear_modal t modalState)
  then show ?case by (simp add: clearModalState_def)
qed

text \<open>
  A reachable tab either holds no snapshot (no spans, no lines, no ranges, cursor 0) or
  holds one with at least one span and one line and the cursor on one of its spans.
\<close>

lemma reachable_snapshot:
  "reachable t \<Longrightarrow>
     (snapshotSpans t = [] \<and> globalLines t = [] \<and> spanToGlobalLineMap t = []
        \<and> currentSpanIndex t = 0)
     \<or> (snapshotSpans t \<noteq> [] \<and> globalLines t \<noteq> []
        \<and> 0 \<le> currentSpanIndex t \<and> currentSpanIndex t < int (length (snapshotSpans t)))"
proof (induction rule: reachable.induct)
  case (init spanSize)
  then show ?case by (simp add: new_tab_def)
next
  case (reset t)
  then show ?case by (simp add: resetSnapshot_def)
next
  case (capture t snapshot)
  have ne: "fst (splitSnapshotIntoSpans (t\<lparr>fullSnapshot := snapshot\<rparr>) snapshot) \<noteq> []"
    by (rule splitSnapshotIntoSpans_nonempty)
  show ?case
  proof (cases "fullSnapshot t \<noteq> snapshot")
    case True
    then show ?thesis
      using ne capture.IH
      by (cases "fst (splitSnapshotIntoSpans (t\<lparr>fullSnapshot := snapshot\<rparr>) snapshot)")
         (auto simp: captureSnapshot_action_def Let_def)
  next
    case False
    then show ?thesis using capture.IH by (simp add: captureSnapshot_action_def)
  qed
next
  case (resize t spanSize)
  let ?t1 = "t\<lparr>snapshotSpanSize := (if spanSize = - 1 then - 1 else max 100 spanSize)\<rparr>"
  have ne: "fst (splitSnapshotIntoSpans ?t1 (fullSnapshot t)) \<noteq> []"
    by (rule splitSnapshotIntoSpans_nonempty)
  show ?case
  proof (cases "fullSnapshot t \<noteq> []")
    case True
    then show ?thesis
      using ne resize.IH
      by (cases "fst (splitSnapshotIntoSpans ?t1 (fullSnapshot t))")
         (auto simp: setSnapshotSpanSize_def Let_def)
  next
    case False
    then show ?thesis using resize.IH by (simp add: setSnapshotSpanSize_def Let_def)
  qed
next
  case (to_span t index)
  then show ?case by (auto simp: navigateToSpan_def Let_def)
next
  case (set_modal t modalState)
  then show ?case by (simp add: setModalState_def)
next
  case (clear_modal t modalState)
  then show ?case by (simp add: clearModalState_def)
qed

text \<open>
  C2. In a reachable state, when the captured text differs from the previous one, the
  new spans are those of the split, and the cursor is 0 if there were no spans before;
  it keeps its value if the number of spans is the same, the old cursor is within bounds
  and every span other than the one under the old cursor is the same text as before; it
  is 0 in every other case. The cursor ends within \<open>[0, spanCount - 1]\<close>.
\<close>

theorem cursor_reconciliation:
  assumes "reachable t" and "fullSnapshot t \<noteq> snapshot"
  shows "snapshotSpans (captureSnapshot_action t snapshot)
           = fst (splitSnapshotIntoSpans (t\<lparr> fullSnapshot := snapshot \<rparr>) snapshot)
         \<and> currentSpanIndex (captureSnapshot_action t snapshot)
           = (if snapshotSpans t = [] then 0
              else if length (snapshotSpans (captureSnapshot_action t snapshot)) = length (snapshotSpans t)
                      \<and> 0 \<le> currentSpanIndex t
                      \<and> currentSpanIndex t < int (length (snapshotSpans t))
                      \<and> (\<forall>i < length (snapshotSpans t). int i \<noteq> currentSpanIndex t \<longrightarrow>
                            snapshotSpans (captureSnapshot_action t snapshot) ! i = snapshotSpans t ! i)
              then currentSpanIndex t
              else 0)
         \<and> 0 \<le> currentSpanIndex (captureSnapshot_action t snapshot)
         \<and> currentSpanIndex (captureSnapshot_action t snapshot)
             \<le> int (length (snapshotSpans (captureSnapshot_action t snapshot))) - 1"
proof -
  have c: "0 \<le> currentSpanIndex t" using assms(1) by (rule reachable_cursor)
  have ne: "fst (splitSnapshotIntoSpans (t\<lparr> fullSnapshot := snapshot \<rparr>) snapshot) \<noteq> []"
    by (rule splitSnapshotIntoSpans_nonempty)
  then have len: "0 < length (fst (splitSnapshotIntoSpans (t\<lparr> fullSnapshot := snapshot \<rparr>) snapshot))"
    by simp
  show ?thesis
    using c len assms(2)
    by (auto simp: captureSnapshot_action_def Let_def onlyCurrentSpanChanged_iff)
qed

theorem cursor_reconciliation_witness:
  "reachable (snd (navigateToSpan (captureSnapshot_action (new_tab (Some 100) :: nat tab)
        (replicate 60 CHR ''a'' @ [NL] @ replicate 60 CHR ''b'')) 1))
   \<and> fullSnapshot (snd (navigateToSpan (captureSnapshot_action (new_tab (Some 100) :: nat tab)
        (replicate 60 CHR ''a'' @ [NL] @ replicate 60 CHR ''b'')) 1))
       \<noteq> replicate 60 CHR ''a'' @ [NL] @ replicate 60 CHR ''c''
   \<and> currentSpanIndex (captureSnapshot_action
        (snd (navigateToSpan (captureSnapshot_action (new_tab (Some 100) :: nat tab)
           (replicate 60 CHR ''a'' @ [NL] @ replicate 60 CHR ''b'')) 1))
        (replicate 60 CHR ''a'' @ [NL] @ replicate 60 CHR ''c'')) = 1
   \<and> currentSpanIndex (captureSnapshot_action
        (snd (navigateToSpan (captureSnapshot_action (new_tab (Some 100) :: nat tab)
           (replicate 60 CHR ''a'' @ [NL] @ replicate 60 CHR ''b'')) 1))
        (replicate 60 CHR ''c'' @ [NL] @ replicate 60 CHR ''b'')) = 0
   \<and> 0 \<le> currentSpanIndex (captureSnapshot_action
        (snd (navigateToSpan (captureSnapshot_action (new_tab (Some 100) :: nat tab)
           (replicate 60 CHR ''a'' @ [NL] @ replicate 60 CHR ''b'')) 1))
        (replicate 60 CHR ''a'' @ [NL] @ replicate 60 CHR ''c''))"
proof -
  let ?T = "snd (navigateToSpan (captureSnapshot_action (new_tab (Some 100) :: nat tab)
        (replicate 60 CHR ''a'' @ [NL] @ replicate 60 CHR ''b'')) 1)"
  let ?S = "replicate 60 CHR ''a'' @ [NL] @ replicate 60 CHR ''c''"
  have r: "reachable ?T" by (intro reachable.intros)
  have d: "fullSnapshot ?T \<noteq> ?S" by code_simp
  have c: "currentSpanIndex (captureSnapshot_action ?T ?S) = 1" by code_simp
  have c0: "currentSpanIndex (captureSnapshot_action ?T
              (replicate 60 CHR ''c'' @ [NL] @ replicate 60 CHR ''b'')) = 0" by code_simp
  from cursor_reconciliation [OF r d]
  have "0 \<le> currentSpanIndex (captureSnapshot_action ?T ?S)" by blast
  with r d c c0 show ?thesis by simp
qed

section \<open>Properties of the search\<close>

subsection \<open>The lines of a span are lines of the snapshot\<close>

lemma length_split_nl: "length (split_nl s) = Suc (count_list s NL)"
proof (induction s)
  case Nil
  then show ?case by simp
next
  case (Cons c cs)
  then show ?case by (cases "split_nl cs") auto
qed

lemma split_nl_no_NL: "l \<in> set (split_nl s) \<Longrightarrow> NL \<notin> set l"
proof (induction s arbitrary: l)
  case Nil
  then show ?case by simp
next
  case (Cons c cs)
  then show ?case by (cases "split_nl cs") (auto split: if_splits)
qed

lemma digit_not_NL: "n < 10 \<Longrightarrow> ''0123456789'' ! n \<noteq> NL"
proof -
  assume "n < 10"
  then have "''0123456789'' ! n \<in> set ''0123456789''" by (intro nth_mem) simp
  moreover have "NL \<notin> set ''0123456789''" by (simp add: NL_def)
  ultimately show ?thesis by metis
qed

lemma show_nat_no_NL: "NL \<notin> set (show_nat n)"
proof (induction n rule: show_nat.induct)
  case (1 n)
  show ?case
  proof (cases "n < 10")
    case True
    then show ?thesis using digit_not_NL [of n] by (subst show_nat.simps) simp
  next
    case False
    then show ?thesis using 1 digit_not_NL [of "n mod 10"] by (subst show_nat.simps) simp
  qed
qed

lemma count_lineToAdd: "NL \<notin> set l \<Longrightarrow> count_list (lineToAdd spanSize l) NL = 1"
  using show_nat_no_NL [of "length l"]
  by (auto simp: lineToAdd_def NL_def count_list_0_iff dest: in_set_takeD)

lemma count_concat_lineToAdd:
  "\<forall>l \<in> set ls. NL \<notin> set l \<Longrightarrow> count_list (concat (map (lineToAdd spanSize) ls)) NL = length ls"
  by (induction ls) (simp_all add: count_lineToAdd)

lemma trimEnd_split: "s = trimEnd s @ rev (takeWhile is_space (rev s))"
  unfolding trimEnd_def by (metis rev_append rev_rev_ident takeWhile_dropWhile_id)

lemma count_trimEnd:
  assumes "s \<noteq> []" and "last s = NL"
  shows "count_list (trimEnd s) NL < count_list s NL"
proof -
  from assms obtain ys where s: "s = ys @ [NL]" by (metis append_butlast_last_id)
  then have "NL \<in> set (takeWhile is_space (rev s))" by (simp add: NL_space)
  then have "0 < count_list (rev (takeWhile is_space (rev s))) NL"
    by (metis count_list_0_iff count_list_rev gr0I)
  moreover have "count_list s NL
        = count_list (trimEnd s) NL + count_list (rev (takeWhile is_space (rev s))) NL"
    using trimEnd_split [of s] by (metis count_list_append)
  ultimately show ?thesis by simp
qed

lemma concat_lineToAdd_last:
  "ls \<noteq> [] \<Longrightarrow> concat (map (lineToAdd spanSize) ls) \<noteq> []
     \<and> last (concat (map (lineToAdd spanSize) ls)) = NL"
proof (induction ls rule: rev_induct)
  case Nil
  then show ?case by simp
next
  case (snoc l ls)
  then show ?case using lineToAdd_last [of spanSize l] by simp
qed

lemma span_text_lines:
  assumes "ls \<noteq> []" and "\<forall>l \<in> set ls. NL \<notin> set l"
  shows "length (split_nl (span_text spanSize ls)) \<le> length ls"
proof -
  let ?s = "concat (map (lineToAdd spanSize) ls)"
  from concat_lineToAdd_last [OF assms(1), of spanSize]
  have "count_list (trimEnd ?s) NL < count_list ?s NL" by (intro count_trimEnd) simp_all
  then show ?thesis
    using count_concat_lineToAdd [OF assms(2), of spanSize]
    by (simp add: span_text_def length_split_nl)
qed

lemma lines_of_facts:
  assumes "1 \<le> startLine rg" and "startLine rg \<le> endLine rg" and "endLine rg \<le> int (length ls)"
  shows "length (lines_of rg ls) = nat (endLine rg - startLine rg + 1)"
    and "lines_of rg ls \<noteq> []" and "set (lines_of rg ls) \<subseteq> set ls"
proof -
  show l: "length (lines_of rg ls) = nat (endLine rg - startLine rg + 1)"
    using assms by (simp add: lines_of_def)
  then show "lines_of rg ls \<noteq> []" using assms by auto
  show "set (lines_of rg ls) \<subseteq> set ls"
    unfolding lines_of_def by (meson set_take_subset set_drop_subset subset_trans)
qed

lemma split_spans_fit:
  fixes t :: "'m tab"
  shows "spans_fit ((snd (splitSnapshotIntoSpans t snapshot))
            \<lparr> snapshotSpans := fst (splitSnapshotIntoSpans t snapshot) \<rparr>)"
proof (cases "snapshotSpanSize t = - 1")
  case True
  then show ?thesis
    by (simp add: spans_fit_def splitSnapshotIntoSpans_def Let_def nth_opt_def globalLineOf_def)
next
  case False
  let ?ls = "split_nl snapshot"
  let ?run = "split_run (snapshotSpanSize t) ?ls"
  from split_run_spec [of "snapshotSpanSize t" ?ls]
  have cont: "contiguous 1 (lineMap ?run)" and cov: "covered (lineMap ?run) \<le> int (length ?ls)"
    and sp: "spans ?run = map (\<lambda>rg. span_text (snapshotSpanSize t) (lines_of rg ?ls)) (lineMap ?run)"
    by simp_all
  have n: "1 \<le> length ?ls" using split_nl_nonempty [of snapshot] by (cases ?ls) simp_all
  show ?thesis
  proof (cases "spans ?run = []")
    case True
    then have "lineMap ?run = []" using sp by simp
    with True False n show ?thesis
      by (simp add: spans_fit_def splitSnapshotIntoSpans_def Let_def nth_opt_def globalLineOf_def)
  next
    case ne: False
    have "\<forall>k < length (lineMap ?run).
            \<forall>j < length (split_nl (span_text (snapshotSpanSize t) (lines_of (lineMap ?run ! k) ?ls))).
            1 \<le> startLine (lineMap ?run ! k) + int j
            \<and> startLine (lineMap ?run ! k) + int j \<le> int (length ?ls)"
    proof (intro allI impI)
      fix k j assume "k < length (lineMap ?run)"
        and j: "j < length (split_nl (span_text (snapshotSpanSize t) (lines_of (lineMap ?run ! k) ?ls)))"
      then have "lineMap ?run ! k \<in> set (lineMap ?run)" by simp
      from contiguous_covered [OF cont this] cov
      have b: "1 \<le> startLine (lineMap ?run ! k)"
           "startLine (lineMap ?run ! k) \<le> endLine (lineMap ?run ! k)"
           "endLine (lineMap ?run ! k) \<le> int (length ?ls)" by simp_all
      note f = lines_of_facts [OF b]
      have "\<forall>l \<in> set (lines_of (lineMap ?run ! k) ?ls). NL \<notin> set l"
        using f(3) split_nl_no_NL by blast
      from span_text_lines [OF f(2) this, of "snapshotSpanSize t"] f(1) b j
      show "1 \<le> startLine (lineMap ?run ! k) + int j
            \<and> startLine (lineMap ?run ! k) + int j \<le> int (length ?ls)"
        by simp
    qed
    with ne False sp show ?thesis
      by (simp add: spans_fit_def splitSnapshotIntoSpans_def Let_def nth_opt_def globalLineOf_def)
  qed
qed

lemma spans_fit_cong:
  "snapshotSpans t' = snapshotSpans t \<Longrightarrow> spanToGlobalLineMap t' = spanToGlobalLineMap t \<Longrightarrow>
     globalLines t' = globalLines t \<Longrightarrow> spans_fit t' = spans_fit t"
  by (simp add: spans_fit_def)

lemma spans_fit_no_spans: "snapshotSpans t = [] \<Longrightarrow> spans_fit t"
  by (simp add: spans_fit_def)

lemma captureSnapshot_action_fit:
  assumes "spans_fit t"
  shows "spans_fit (captureSnapshot_action t snapshot)"
proof (cases "fullSnapshot t \<noteq> snapshot")
  case True
  let ?r = "splitSnapshotIntoSpans (t\<lparr> fullSnapshot := snapshot \<rparr>) snapshot"
  have "spans_fit (captureSnapshot_action t snapshot) = spans_fit ((snd ?r)\<lparr>snapshotSpans := fst ?r\<rparr>)"
    using True by (intro spans_fit_cong) (simp_all add: captureSnapshot_action_def Let_def)
  then show ?thesis using split_spans_fit [of "t\<lparr> fullSnapshot := snapshot \<rparr>" snapshot] by simp
next
  case False
  then show ?thesis using assms by (simp add: captureSnapshot_action_def)
qed

lemma setSnapshotSpanSize_fit:
  assumes "spans_fit t"
  shows "spans_fit (setSnapshotSpanSize t n)"
proof (cases "fullSnapshot t \<noteq> []")
  case True
  let ?t1 = "t\<lparr> snapshotSpanSize := (if n = - 1 then - 1 else max 100 n) \<rparr>"
  let ?r = "splitSnapshotIntoSpans ?t1 (fullSnapshot t)"
  have "spans_fit (setSnapshotSpanSize t n) = spans_fit ((snd ?r)\<lparr>snapshotSpans := fst ?r\<rparr>)"
    using True by (intro spans_fit_cong) (simp_all add: setSnapshotSpanSize_def Let_def)
  then show ?thesis using split_spans_fit [of ?t1 "fullSnapshot t"] by simp
next
  case False
  have "spans_fit (setSnapshotSpanSize t n) = spans_fit t"
    using False by (intro spans_fit_cong) (simp_all add: setSnapshotSpanSize_def Let_def)
  then show ?thesis using assms by simp
qed

lemma reachable_fit: "reachable t \<Longrightarrow> spans_fit t"
proof (induction rule: reachable.induct)
  case (init spanSize)
  then show ?case by (simp add: spans_fit_no_spans new_tab_def)
next
  case (reset t)
  then show ?case by (simp add: spans_fit_no_spans resetSnapshot_def)
next
  case (capture t snapshot)
  then show ?case by (simp add: captureSnapshot_action_fit)
next
  case (resize t spanSize)
  then show ?case by (simp add: setSnapshotSpanSize_fit)
next
  case (to_span t index)
  have "spans_fit (snd (navigateToSpan t index)) = spans_fit t"
    by (intro spans_fit_cong) (simp_all add: navigateToSpan_def Let_def)
  then show ?case using to_span.IH by simp
next
  case (set_modal t modalState)
  have "spans_fit (setModalState t modalState) = spans_fit t"
    by (intro spans_fit_cong) (simp_all add: setModalState_def)
  then show ?case using set_modal.IH by simp
next
  case (clear_modal t modalState)
  have "spans_fit (clearModalState t modalState) = spans_fit t"
    by (intro spans_fit_cong) (simp_all add: clearModalState_def)
  then show ?case using clear_modal.IH by simp
qed

subsection \<open>The lines of a span are the lines of its range\<close>

lemma trimEnd_Cons:
  "trimEnd (c # s) = (if trimEnd s = [] \<and> is_space c then [] else c # trimEnd s)"
proof (cases "\<forall>x \<in> set s. is_space x")
  case True
  then have "dropWhile is_space (rev s) = []" by simp
  then show ?thesis by (simp add: trimEnd_def dropWhile_append)
next
  case False
  then have "dropWhile is_space (rev s) \<noteq> []" by (simp add: dropWhile_eq_Nil_conv)
  then show ?thesis by (simp add: trimEnd_def dropWhile_append)
qed

lemma split_nl_chars: "l \<in> set (split_nl s) \<Longrightarrow> set l \<subseteq> set s"
proof (induction s arbitrary: l)
  case Nil
  then show ?case by simp
next
  case (Cons c cs)
  then show ?case by (cases "split_nl cs") (fastforce split: if_splits)+
qed

lemma trimEnd_split_nl_prefix:
  assumes "\<forall>c \<in> set w. is_space c"
  shows "j < length (split_nl p) \<Longrightarrow>
           j < length (split_nl (p @ w))
           \<and> trimEnd (split_nl p ! j) = trimEnd (split_nl (p @ w) ! j)"
proof (induction p arbitrary: j)
  case Nil
  then have j: "j = 0" by simp
  have "split_nl w ! 0 \<in> set (split_nl w)" by (intro nth_mem) (simp add: Suc_leI)
  from split_nl_chars [OF this] assms have "\<forall>c \<in> set (split_nl w ! 0). is_space c" by blast
  then have "trimEnd (split_nl w ! 0) = []" by (simp add: trimEnd_Nil_iff)
  then show ?case using j by (simp add: trimEnd_def)
next
  case (Cons c p)
  show ?case
  proof (cases "c = NL")
    case True
    then show ?thesis using Cons by (cases j) auto
  next
    case False
    obtain l ls where a: "split_nl p = l # ls" by (cases "split_nl p") auto
    obtain l' ls' where b: "split_nl (p @ w) = l' # ls'" by (cases "split_nl (p @ w)") auto
    show ?thesis
    proof (cases j)
      case 0
      from Cons.IH [of 0] a b have "trimEnd l = trimEnd l'" by simp
      then show ?thesis using False a b 0 by (simp add: trimEnd_Cons)
    next
      case (Suc i)
      with Cons.prems False a have "Suc i < length (split_nl p)" by simp
      from Cons.IH [OF this] a b show ?thesis using False Suc by simp
    qed
  qed
qed

lemma split_nl_line: "NL \<notin> set l \<Longrightarrow> split_nl (l @ NL # rest) = l # split_nl rest"
  by (induction l) auto

lemma split_nl_lines:
  "\<forall>l \<in> set ls. NL \<notin> set l \<Longrightarrow> split_nl (concat (map (\<lambda>l. l @ [NL]) ls)) = ls @ [[]]"
  by (induction ls) (simp_all add: split_nl_line)

lemma lineToAdd_shown: "lineToAdd spanSize l = butlast (lineToAdd spanSize l) @ [NL]"
  using lineToAdd_last [of spanSize l] by (metis append_butlast_last_id)

lemma shown_no_NL:
  assumes "NL \<notin> set l"
  shows "NL \<notin> set (butlast (lineToAdd spanSize l))"
proof -
  have "count_list (butlast (lineToAdd spanSize l) @ [NL]) NL = 1"
    using count_lineToAdd [OF assms, of spanSize] lineToAdd_shown [of spanSize l] by simp
  then have "count_list (butlast (lineToAdd spanSize l)) NL = 0" by simp
  then show ?thesis by (simp add: count_list_0_iff)
qed

lemma concat_lineToAdd_shown:
  "concat (map (lineToAdd spanSize) ls)
     = concat (map (\<lambda>l. l @ [NL]) (map (\<lambda>l. butlast (lineToAdd spanSize l)) ls))"
proof (induction ls)
  case Nil
  then show ?case by simp
next
  case (Cons l ls)
  then show ?case using lineToAdd_shown [of spanSize l] by simp
qed

lemma span_text_line:
  assumes "ls \<noteq> []" and "\<forall>l \<in> set ls. NL \<notin> set l"
    and "j < length (split_nl (span_text spanSize ls))"
  shows "j < length ls
         \<and> trim (split_nl (span_text spanSize ls) ! j) = trim (butlast (lineToAdd spanSize (ls ! j)))"
proof -
  let ?X = "concat (map (lineToAdd spanSize) ls)"
  let ?W = "rev (takeWhile is_space (rev ?X))"
  have j: "j < length ls" using span_text_lines [OF assms(1,2), of spanSize] assms(3) by simp
  have w: "\<forall>c \<in> set ?W. is_space c" by (auto dest: set_takeWhileD)
  have x: "?X = trimEnd ?X @ ?W" by (rule trimEnd_split)
  from trimEnd_split_nl_prefix [OF w, of j "trimEnd ?X"] assms(3)
  have "trimEnd (split_nl (trimEnd ?X) ! j) = trimEnd (split_nl (trimEnd ?X @ ?W) ! j)"
    by (simp add: span_text_def)
  with x have e: "trimEnd (split_nl (trimEnd ?X) ! j) = trimEnd (split_nl ?X ! j)" by simp
  have "\<forall>l \<in> set (map (\<lambda>l. butlast (lineToAdd spanSize l)) ls). NL \<notin> set l"
    using assms(2) shown_no_NL by auto
  from split_nl_lines [OF this]
  have "split_nl ?X = map (\<lambda>l. butlast (lineToAdd spanSize l)) ls @ [[]]"
    by (simp add: concat_lineToAdd_shown [of spanSize ls])
  with j have "split_nl ?X ! j = butlast (lineToAdd spanSize (ls ! j))"
    by (simp add: nth_append)
  with e j show ?thesis by (simp add: span_text_def trim_def)
qed

lemma split_spans_show:
  fixes t :: "'m tab"
  shows "spans_show (snapshotSpanSize t) ((snd (splitSnapshotIntoSpans t snapshot))
            \<lparr> snapshotSpans := fst (splitSnapshotIntoSpans t snapshot) \<rparr>)"
proof (cases "snapshotSpanSize t = - 1")
  case True
  then show ?thesis
    by (simp add: spans_show_def splitSnapshotIntoSpans_def Let_def nth_opt_def globalLineOf_def
          line_text_def)
next
  case False
  let ?B = "snapshotSpanSize t"
  let ?ls = "split_nl snapshot"
  let ?run = "split_run ?B ?ls"
  from split_run_spec [of ?B ?ls]
  have cont: "contiguous 1 (lineMap ?run)" and cov: "covered (lineMap ?run) \<le> int (length ?ls)"
    and sp: "spans ?run = map (\<lambda>rg. span_text ?B (lines_of rg ?ls)) (lineMap ?run)"
    by simp_all
  show ?thesis
  proof (cases "spans ?run = []")
    case True
    then have m: "lineMap ?run = []" using sp by simp
    then have "covered (lineMap ?run) = 0" by (simp add: covered_def)
    with split_run_tail [of ?B ?ls]
    have "\<forall>l \<in> set ?ls. \<forall>c \<in> set (lineToAdd ?B l). is_space c" by simp
    moreover have "?ls ! 0 \<in> set ?ls" by (intro nth_mem) (simp add: Suc_leI)
    ultimately have "\<forall>c \<in> set (lineToAdd ?B (?ls ! 0)). is_space c" by blast
    then have "\<forall>c \<in> set (butlast (lineToAdd ?B (?ls ! 0))). is_space c"
      by (meson in_set_butlastD)
    then have "trim (butlast (lineToAdd ?B (?ls ! 0))) = []" by (simp add: trim_Nil_iff)
    moreover have "trim [] = []" by (simp add: trim_def trimEnd_def)
    ultimately show ?thesis
      using True False m
      by (simp add: spans_show_def splitSnapshotIntoSpans_def Let_def nth_opt_def globalLineOf_def
            line_text_def)
  next
    case ne: False
    have "\<forall>k < length (lineMap ?run).
            \<forall>j < length (split_nl (span_text ?B (lines_of (lineMap ?run ! k) ?ls))).
            trim (split_nl (span_text ?B (lines_of (lineMap ?run ! k) ?ls)) ! j)
              = trim (butlast (lineToAdd ?B (?ls ! nat (startLine (lineMap ?run ! k) + int j - 1))))"
    proof (intro allI impI)
      fix k j assume "k < length (lineMap ?run)"
        and j: "j < length (split_nl (span_text ?B (lines_of (lineMap ?run ! k) ?ls)))"
      then have "lineMap ?run ! k \<in> set (lineMap ?run)" by simp
      from contiguous_covered [OF cont this] cov
      have b: "1 \<le> startLine (lineMap ?run ! k)"
           "startLine (lineMap ?run ! k) \<le> endLine (lineMap ?run ! k)"
           "endLine (lineMap ?run ! k) \<le> int (length ?ls)" by simp_all
      note f = lines_of_facts [OF b]
      have "\<forall>l \<in> set (lines_of (lineMap ?run ! k) ?ls). NL \<notin> set l"
        using f(3) split_nl_no_NL by blast
      from span_text_line [OF f(2) this j]
      have jl: "j < length (lines_of (lineMap ?run ! k) ?ls)"
        and tr: "trim (split_nl (span_text ?B (lines_of (lineMap ?run ! k) ?ls)) ! j)
                 = trim (butlast (lineToAdd ?B (lines_of (lineMap ?run ! k) ?ls ! j)))"
        by simp_all
      have "lines_of (lineMap ?run ! k) ?ls ! j
              = ?ls ! nat (startLine (lineMap ?run ! k) + int j - 1)"
      proof -
        have "lines_of (lineMap ?run ! k) ?ls ! j
                = ?ls ! (nat (startLine (lineMap ?run ! k) - 1) + j)"
          using jl f(1) b by (simp add: lines_of_def)
        moreover have "nat (startLine (lineMap ?run ! k) - 1) + j
                = nat (startLine (lineMap ?run ! k) + int j - 1)"
          using b(1) by simp
        ultimately show ?thesis by simp
      qed
      with tr
      show "trim (split_nl (span_text ?B (lines_of (lineMap ?run ! k) ?ls)) ! j)
              = trim (butlast (lineToAdd ?B (?ls ! nat (startLine (lineMap ?run ! k) + int j - 1))))"
        by simp
    qed
    with ne False sp show ?thesis
      by (simp add: spans_show_def splitSnapshotIntoSpans_def Let_def nth_opt_def globalLineOf_def
            line_text_def)
  qed
qed

lemma spans_show_cong:
  "snapshotSpans t' = snapshotSpans t \<Longrightarrow> spanToGlobalLineMap t' = spanToGlobalLineMap t \<Longrightarrow>
     globalLines t' = globalLines t \<Longrightarrow> spans_show B t' = spans_show B t"
  by (simp add: spans_show_def)

lemma spans_show_no_spans: "snapshotSpans t = [] \<Longrightarrow> spans_show B t"
  by (simp add: spans_show_def)

lemma reachable_show:
  "reachable t \<Longrightarrow>
     \<exists>B. (fullSnapshot t \<noteq> [] \<longrightarrow> B = snapshotSpanSize t) \<and> spans_show B t"
proof (induction rule: reachable.induct)
  case (init spanSize)
  then show ?case by (simp add: spans_show_no_spans new_tab_def)
next
  case (reset t)
  then show ?case by (simp add: spans_show_no_spans resetSnapshot_def)
next
  case (capture t snapshot)
  show ?case
  proof (cases "fullSnapshot t \<noteq> snapshot")
    case True
    let ?t0 = "t\<lparr> fullSnapshot := snapshot \<rparr>"
    let ?r = "splitSnapshotIntoSpans ?t0 snapshot"
    have "spans_show (snapshotSpanSize t) (captureSnapshot_action t snapshot)
            = spans_show (snapshotSpanSize t) ((snd ?r)\<lparr>snapshotSpans := fst ?r\<rparr>)"
      using True by (intro spans_show_cong) (simp_all add: captureSnapshot_action_def Let_def)
    moreover have "spans_show (snapshotSpanSize ?t0) ((snd ?r)\<lparr>snapshotSpans := fst ?r\<rparr>)"
      by (rule split_spans_show)
    moreover have "snapshotSpanSize (captureSnapshot_action t snapshot) = snapshotSpanSize t"
      by (simp add: captureSnapshot_action_def Let_def)
    ultimately show ?thesis by (intro exI [of _ "snapshotSpanSize t"]) simp
  next
    case False
    then show ?thesis using capture.IH by (simp add: captureSnapshot_action_def)
  qed
next
  case (resize t spanSize)
  let ?n = "if spanSize = - 1 then - 1 else max 100 spanSize"
  let ?t1 = "t\<lparr> snapshotSpanSize := ?n \<rparr>"
  show ?case
  proof (cases "fullSnapshot t \<noteq> []")
    case True
    let ?r = "splitSnapshotIntoSpans ?t1 (fullSnapshot t)"
    have "spans_show ?n (setSnapshotSpanSize t spanSize)
            = spans_show ?n ((snd ?r)\<lparr>snapshotSpans := fst ?r\<rparr>)"
      using True by (intro spans_show_cong) (simp_all add: setSnapshotSpanSize_def Let_def)
    moreover have "spans_show (snapshotSpanSize ?t1) ((snd ?r)\<lparr>snapshotSpans := fst ?r\<rparr>)"
      by (rule split_spans_show)
    moreover have "snapshotSpanSize (setSnapshotSpanSize t spanSize) = ?n"
      by (simp add: setSnapshotSpanSize_def Let_def)
    ultimately show ?thesis by (intro exI [of _ ?n]) simp
  next
    case False
    from resize.IH obtain B where b: "spans_show B t" by blast
    have "spans_show B (setSnapshotSpanSize t spanSize) = spans_show B t"
      using False by (intro spans_show_cong) (simp_all add: setSnapshotSpanSize_def Let_def)
    moreover have "fullSnapshot (setSnapshotSpanSize t spanSize) = []"
      using False by (simp add: setSnapshotSpanSize_def Let_def)
    ultimately show ?thesis using b by auto
  qed
next
  case (to_span t index)
  from to_span.IH obtain B where b: "fullSnapshot t \<noteq> [] \<longrightarrow> B = snapshotSpanSize t" "spans_show B t"
    by blast
  have "spans_show B (snd (navigateToSpan t index)) = spans_show B t"
    by (intro spans_show_cong) (simp_all add: navigateToSpan_def Let_def)
  moreover have "fullSnapshot (snd (navigateToSpan t index)) = fullSnapshot t"
    "snapshotSpanSize (snd (navigateToSpan t index)) = snapshotSpanSize t"
    by (simp_all add: navigateToSpan_def Let_def)
  ultimately show ?case using b by auto
next
  case (set_modal t modalState)
  from set_modal.IH obtain B where b: "fullSnapshot t \<noteq> [] \<longrightarrow> B = snapshotSpanSize t" "spans_show B t"
    by blast
  have "spans_show B (setModalState t modalState) = spans_show B t"
    by (intro spans_show_cong) (simp_all add: setModalState_def)
  then show ?case using b by (auto simp: setModalState_def)
next
  case (clear_modal t modalState)
  from clear_modal.IH obtain B where b: "fullSnapshot t \<noteq> [] \<longrightarrow> B = snapshotSpanSize t" "spans_show B t"
    by blast
  have "spans_show B (clearModalState t modalState) = spans_show B t"
    by (intro spans_show_cong) (simp_all add: clearModalState_def)
  then show ?case using b by (auto simp: clearModalState_def)
qed

lemma line_text_short:
  "spanSize = - 1 \<or> int (length l) < spanSize \<Longrightarrow> line_text spanSize l = l"
  by (auto simp: line_text_def lineToAdd_def)

subsection \<open>Every match is a line of a span\<close>

lemma search_lines_found:
  assumes "m \<in> set (snd (snd (search_lines r rg k j ls (li, h, ms))))"
  shows "m \<in> set ms
         \<or> (\<exists>i < length ls.
               m = \<lparr> matchSpanIndex = int k, line = trim (ls ! i),
                     inSpanLineNumber = int (j + i) + 1,
                     globalLineNumber = globalLineOf rg (j + i) \<rparr>)"
  using assms
proof (induction ls arbitrary: j li h ms)
  case Nil
  then show ?case by simp
next
  case (Cons l ls)
  let ?res = "regexp_test r li l"
  let ?new = "\<lparr> matchSpanIndex = int k, line = trim l, inSpanLineNumber = int j + 1,
                 globalLineNumber = globalLineOf rg j \<rparr>"
  have "m \<in> set (snd (snd (search_lines r rg k (Suc j) ls (snd ?res, True, ms @ [?new]))))
        \<or> m \<in> set (snd (snd (search_lines r rg k (Suc j) ls (snd ?res, h, ms))))"
    using Cons.prems by (simp add: Let_def split: if_splits)
  with Cons.IH
  consider "m \<in> set ms" | "m = ?new"
    | i where "i < length ls"
        "m = \<lparr> matchSpanIndex = int k, line = trim (ls ! i),
               inSpanLineNumber = int (Suc j + i) + 1,
               globalLineNumber = globalLineOf rg (Suc j + i) \<rparr>"
    by fastforce
  then show ?case
  proof cases
    case 1
    then show ?thesis by simp
  next
    case 2
    then show ?thesis by (intro disjI2 exI [of _ 0]) simp
  next
    case 3
    then show ?thesis by (intro disjI2 exI [of _ "Suc i"]) simp
  qed
qed

lemma search_spans_found:
  assumes "m \<in> set (snd (snd (search_spans r lmap k sps (li, idxs, ms))))"
  shows "m \<in> set ms
         \<or> (\<exists>i < length sps. \<exists>j < length (split_nl (sps ! i)).
               m = \<lparr> matchSpanIndex = int (k + i), line = trim (split_nl (sps ! i) ! j),
                     inSpanLineNumber = int j + 1,
                     globalLineNumber = globalLineOf (nth_opt lmap (k + i)) j \<rparr>)"
  using assms
proof (induction sps arbitrary: k li idxs ms)
  case Nil
  then show ?case by simp
next
  case (Cons sp sps)
  let ?res = "search_lines r (nth_opt lmap k) k 0 (split_nl sp) (li, False, ms)"
  from Cons.prems
  have "m \<in> set (snd (snd (search_spans r lmap (Suc k) sps
           (fst ?res, if fst (snd ?res) then idxs @ [int k] else idxs, snd (snd ?res)))))"
    by (simp add: Let_def)
  from Cons.IH [OF this]
  consider "m \<in> set (snd (snd ?res))"
    | i j where "i < length sps" "j < length (split_nl (sps ! i))"
        "m = \<lparr> matchSpanIndex = int (Suc k + i), line = trim (split_nl (sps ! i) ! j),
               inSpanLineNumber = int j + 1,
               globalLineNumber = globalLineOf (nth_opt lmap (Suc k + i)) j \<rparr>"
    by auto
  then show ?case
  proof cases
    case 1
    from search_lines_found [OF this]
    consider "m \<in> set ms"
      | j where "j < length (split_nl sp)"
          "m = \<lparr> matchSpanIndex = int k, line = trim (split_nl sp ! j),
                 inSpanLineNumber = int j + 1,
                 globalLineNumber = globalLineOf (nth_opt lmap k) j \<rparr>"
      by auto
    then show ?thesis
    proof cases
      case 1
      then show ?thesis by simp
    next
      case 2
      then show ?thesis by (intro disjI2 exI [of _ 0]) auto
    qed
  next
    case 2
    then show ?thesis by (intro disjI2 exI [of _ "Suc i"]) auto
  qed
qed

lemma search_found:
  assumes "m \<in> set (matches (searchInSnapshot t r))"
  shows "\<exists>k < length (snapshotSpans t). \<exists>j < length (split_nl (snapshotSpans t ! k)).
           m = \<lparr> matchSpanIndex = int k, line = trim (split_nl (snapshotSpans t ! k) ! j),
                 inSpanLineNumber = int j + 1,
                 globalLineNumber = globalLineOf (nth_opt (spanToGlobalLineMap t) k) j \<rparr>"
proof -
  from assms
  have "m \<in> set (snd (snd (search_spans r (spanToGlobalLineMap t) 0 (snapshotSpans t) (0, [], []))))"
    by (simp add: searchInSnapshot_def Let_def)
  from search_spans_found [OF this] show ?thesis by simp
qed

text \<open>
  C8. In a reachable state, for every match that \<open>searchInSnapshot\<close> returns, whatever
  the compiled pattern, \<open>navigateToLine\<close> on the match's global line number succeeds,
  leaves the tab as it is, and for \<open>contextLines \<ge> 0\<close> the block contains that line and
  marks it and no other. The match is line \<open>inSpanLineNumber\<close> of span \<open>matchSpanIndex\<close>,
  its global line number is the one that the span's range gives to that line, and the
  marked line is the matched line: the text of the match is the trimmed text that the
  span size shows for the marked line of the snapshot, the line itself unless it is
  truncated.
\<close>

theorem search_lines_navigable:
  assumes "reachable t" and "m \<in> set (matches (searchInSnapshot t r))" and "0 \<le> c"
  shows "lineSuccess (fst (navigateToLine large t (globalLineNumber m) c))
         \<and> snd (navigateToLine large t (globalLineNumber m) c) = t
         \<and> content (fst (navigateToLine large t (globalLineNumber m) c))
             = join [NL]
                 (map (\<lambda>k. (if k = globalLineNumber m then ''>>> '' else ''    '')
                             @ show_number large k @ '': '' @ globalLines t ! nat (k - 1))
                    [max 1 (globalLineNumber m - c)
                       .. min (int (length (globalLines t))) (globalLineNumber m + c)])
         \<and> globalLineNumber m
             \<in> set [max 1 (globalLineNumber m - c)
                      .. min (int (length (globalLines t))) (globalLineNumber m + c)]
         \<and> 0 \<le> matchSpanIndex m \<and> matchSpanIndex m < int (length (snapshotSpans t))
         \<and> 1 \<le> inSpanLineNumber m
         \<and> inSpanLineNumber m
             \<le> int (length (split_nl (snapshotSpans t ! nat (matchSpanIndex m))))
         \<and> line m
             = trim (split_nl (snapshotSpans t ! nat (matchSpanIndex m))
                       ! nat (inSpanLineNumber m - 1))
         \<and> globalLineNumber m
             = globalLineOf (nth_opt (spanToGlobalLineMap t) (nat (matchSpanIndex m)))
                 (nat (inSpanLineNumber m - 1))
         \<and> (\<exists>B. (fullSnapshot t \<noteq> [] \<longrightarrow> B = snapshotSpanSize t)
                \<and> line m
                    = trim (line_text B (globalLines t ! nat (globalLineNumber m - 1))))
         \<and> (fullSnapshot t \<noteq> []
              \<and> (snapshotSpanSize t = - 1
                   \<or> int (length (globalLines t ! nat (globalLineNumber m - 1)))
                       < snapshotSpanSize t) \<longrightarrow>
              line m = trim (globalLines t ! nat (globalLineNumber m - 1)))"
proof -
  from search_found [OF assms(2)]
  obtain k j where k: "k < length (snapshotSpans t)"
    and j: "j < length (split_nl (snapshotSpans t ! k))"
    and m: "m = \<lparr> matchSpanIndex = int k, line = trim (split_nl (snapshotSpans t ! k) ! j),
                   inSpanLineNumber = int j + 1,
                   globalLineNumber = globalLineOf (nth_opt (spanToGlobalLineMap t) k) j \<rparr>"
    by blast
  from reachable_fit [OF assms(1)] k j m
  have g: "1 \<le> globalLineNumber m" "globalLineNumber m \<le> int (length (globalLines t))"
    by (simp_all add: spans_fit_def)
  then have "globalLines t \<noteq> []" by auto
  with g have s: "lineSuccess (fst (navigateToLine large t (globalLineNumber m) c))"
    by (simp add: navigateToLine_success)
  from g assms(3)
  have w: "globalLineNumber m
             \<in> set [max 1 (globalLineNumber m - c)
                      .. min (int (length (globalLines t))) (globalLineNumber m + c)]"
    by simp
  from reachable_show [OF assms(1)]
  obtain B where b: "fullSnapshot t \<noteq> [] \<longrightarrow> B = snapshotSpanSize t" and sh: "spans_show B t"
    by blast
  from sh k j m
  have "line m = trim (line_text B (globalLines t ! nat (globalLineNumber m - 1)))"
    by (simp add: spans_show_def)
  with b
  have e: "\<exists>B. (fullSnapshot t \<noteq> [] \<longrightarrow> B = snapshotSpanSize t)
                \<and> line m = trim (line_text B (globalLines t ! nat (globalLineNumber m - 1)))"
    by blast
  have p: "fullSnapshot t \<noteq> []
              \<and> (snapshotSpanSize t = - 1
                   \<or> int (length (globalLines t ! nat (globalLineNumber m - 1)))
                       < snapshotSpanSize t) \<longrightarrow>
              line m = trim (globalLines t ! nat (globalLineNumber m - 1))"
  proof
    assume h: "fullSnapshot t \<noteq> []
              \<and> (snapshotSpanSize t = - 1
                   \<or> int (length (globalLines t ! nat (globalLineNumber m - 1)))
                       < snapshotSpanSize t)"
    with b have "B = snapshotSpanSize t" by simp
    with h have "line_text B (globalLines t ! nat (globalLineNumber m - 1))
                   = globalLines t ! nat (globalLineNumber m - 1)"
      by (intro line_text_short) simp
    with \<open>line m = trim (line_text B (globalLines t ! nat (globalLineNumber m - 1)))\<close>
    show "line m = trim (globalLines t ! nat (globalLineNumber m - 1))" by simp
  qed
  have i: "0 \<le> matchSpanIndex m \<and> matchSpanIndex m < int (length (snapshotSpans t))
         \<and> 1 \<le> inSpanLineNumber m
         \<and> inSpanLineNumber m
             \<le> int (length (split_nl (snapshotSpans t ! nat (matchSpanIndex m))))
         \<and> line m
             = trim (split_nl (snapshotSpans t ! nat (matchSpanIndex m))
                       ! nat (inSpanLineNumber m - 1))
         \<and> globalLineNumber m
             = globalLineOf (nth_opt (spanToGlobalLineMap t) (nat (matchSpanIndex m)))
                 (nat (inSpanLineNumber m - 1))"
    using k j m by simp
  from s w e i p navigateToLine_content [OF s] navigateToLine_same_tab [of large t "globalLineNumber m" c]
  show ?thesis by blast
qed

theorem search_lines_navigable_witness:
  "reachable (captureSnapshot_action (new_tab (Some 100) :: nat tab)
       (replicate 60 CHR ''a'' @ [NL] @ replicate 60 CHR ''b''))
   \<and> snapshotSpans (captureSnapshot_action (new_tab (Some 100) :: nat tab)
       (replicate 60 CHR ''a'' @ [NL] @ replicate 60 CHR ''b''))
      = [replicate 60 CHR ''a'', replicate 60 CHR ''b'']
   \<and> matches (searchInSnapshot
        (captureSnapshot_action (new_tab (Some 100) :: nat tab)
           (replicate 60 CHR ''a'' @ [NL] @ replicate 60 CHR ''b''))
        (literal_regexp ''bb'' True))
      = [\<lparr> matchSpanIndex = 1, line = replicate 60 CHR ''b'', inSpanLineNumber = 1,
            globalLineNumber = 2 \<rparr>]
   \<and> lineSuccess (fst (navigateToLine large_unused
        (captureSnapshot_action (new_tab (Some 100) :: nat tab)
           (replicate 60 CHR ''a'' @ [NL] @ replicate 60 CHR ''b'')) 2 0))
   \<and> content (fst (navigateToLine large_unused
        (captureSnapshot_action (new_tab (Some 100) :: nat tab)
           (replicate 60 CHR ''a'' @ [NL] @ replicate 60 CHR ''b'')) 2 0))
      = ''>>> 2: '' @ replicate 60 CHR ''b''"
proof -
  let ?T = "captureSnapshot_action (new_tab (Some 100) :: nat tab)
       (replicate 60 CHR ''a'' @ [NL] @ replicate 60 CHR ''b'')"
  let ?M = "\<lparr> matchSpanIndex = 1, line = replicate 60 CHR ''b'', inSpanLineNumber = 1,
              globalLineNumber = 2 \<rparr>"
  have r: "reachable ?T" by (intro reachable.intros)
  have sp: "snapshotSpans ?T = [replicate 60 CHR ''a'', replicate 60 CHR ''b'']" by code_simp
  have ms: "matches (searchInSnapshot ?T (literal_regexp ''bb'' True)) = [?M]" by code_simp
  then have m: "?M \<in> set (matches (searchInSnapshot ?T (literal_regexp ''bb'' True)))" by simp
  have c: "content (fst (navigateToLine large_unused ?T 2 0)) = ''>>> 2: '' @ replicate 60 CHR ''b''"
    by code_simp
  from search_lines_navigable [OF r m, of 0 large_unused]
  have "lineSuccess (fst (navigateToLine large_unused ?T 2 0))" by simp
  with r sp ms c show ?thesis by simp
qed

subsection \<open>Expressions that keep no state\<close>

text \<open>
  For an expression compiled without the flags \<open>g\<close> and \<open>y\<close> the search records every
  matching line of every span, in the order of the spans and of the lines in each span,
  and lists the spans that have a matching line.
\<close>

lemma regexp_test_plain:
  "\<not> global r \<Longrightarrow> regexp_test r li s = (pattern_matches r s, li)"
  by (simp add: regexp_test_def pattern_matches_def)

lemma search_lines_plain:
  assumes "\<not> global r"
  shows "search_lines r rg k j ls (li, h, ms)
         = (li, h \<or> (\<exists>l \<in> set ls. pattern_matches r l),
            ms @ map (\<lambda>(i, l). \<lparr> matchSpanIndex = int k, line = trim l,
                                  inSpanLineNumber = int i + 1,
                                  globalLineNumber = globalLineOf rg i \<rparr>)
                   (filter (\<lambda>(i, l). pattern_matches r l) (enumerate j ls)))"
proof (induction ls arbitrary: j h ms)
  case Nil
  then show ?case by simp
next
  case (Cons l ls)
  then show ?case using assms by (auto simp: regexp_test_plain Let_def)
qed

lemma search_spans_plain:
  assumes "\<not> global r"
  shows "search_spans r lmap k sps (li, idxs, ms)
         = (li,
            idxs @ map (\<lambda>(i, sp). int i)
                     (filter (\<lambda>(i, sp). \<exists>l \<in> set (split_nl sp). pattern_matches r l)
                        (enumerate k sps)),
            ms @ concat (map (\<lambda>(i, sp).
                     map (\<lambda>(j, l). \<lparr> matchSpanIndex = int i, line = trim l,
                                      inSpanLineNumber = int j + 1,
                                      globalLineNumber = globalLineOf (nth_opt lmap i) j \<rparr>)
                       (filter (\<lambda>(j, l). pattern_matches r l) (enumerate 0 (split_nl sp))))
                   (enumerate k sps)))"
proof (induction sps arbitrary: k idxs ms)
  case Nil
  then show ?case by simp
next
  case (Cons sp sps)
  then show ?case by (simp add: search_lines_plain [OF assms] Let_def)
qed

lemma search_without_global:
  assumes "\<not> global r"
  shows "searchInSnapshot t r
         = \<lparr> spanIndices =
               map (\<lambda>(i, sp). int i)
                 (filter (\<lambda>(i, sp). \<exists>l \<in> set (split_nl sp). pattern_matches r l)
                    (enumerate 0 (snapshotSpans t))),
             matches =
               concat (map (\<lambda>(i, sp).
                   map (\<lambda>(j, l). \<lparr> matchSpanIndex = int i, line = trim l,
                                    inSpanLineNumber = int j + 1,
                                    globalLineNumber = globalLineOf (nth_opt (spanToGlobalLineMap t) i) j \<rparr>)
                     (filter (\<lambda>(j, l). pattern_matches r l) (enumerate 0 (split_nl sp))))
                 (enumerate 0 (snapshotSpans t))) \<rparr>"
  by (simp add: searchInSnapshot_def search_spans_plain [OF assms] Let_def)

text \<open>
  C3. With an expression compiled with the flag \<open>g\<close> a matching line can be skipped: the
  snapshot has the one span with the lines \<open>aa\<close> and \<open>a\<close>, the pattern \<open>a\<close> matches
  both, and the search records the first only, because \<open>test\<close> on the second line starts
  at the \<open>lastIndex\<close> that the first line left. Without the flag both lines are recorded.
\<close>

theorem search_skips_matching_line:
  "snapshotSpans (captureSnapshot (new_tab None :: nat tab) (''aa'' @ [NL] @ ''a''))
     = [''aa'' @ [NL] @ ''a'']
   \<and> pattern_matches (literal_regexp ''a'' True) ''aa''
   \<and> pattern_matches (literal_regexp ''a'' True) ''a''
   \<and> matches (searchInSnapshot
        (captureSnapshot (new_tab None :: nat tab) (''aa'' @ [NL] @ ''a''))
        (literal_regexp ''a'' True))
      = [\<lparr> matchSpanIndex = 0, line = ''aa'', inSpanLineNumber = 1, globalLineNumber = 1 \<rparr>]
   \<and> matches (searchInSnapshot
        (captureSnapshot (new_tab None :: nat tab) (''aa'' @ [NL] @ ''a''))
        (literal_regexp ''a'' False))
      = [\<lparr> matchSpanIndex = 0, line = ''aa'', inSpanLineNumber = 1, globalLineNumber = 1 \<rparr>,
         \<lparr> matchSpanIndex = 0, line = ''a'', inSpanLineNumber = 2, globalLineNumber = 2 \<rparr>]"
  by code_simp

end
